theory Spec2Isabelle
  imports Main "HOL-Library.Sublist"
begin

section \<open>Instance generation for the reference game\<close>

text \<open>
  A shallow embedding of \<^verbatim>\<open>games/referencegame/instancegenerator.py\<close>.
  Grids are Python strings, modelled as \<^typ>\<open>string\<close>; Python integers are
  \<^typ>\<open>int\<close>; list positions are \<^typ>\<open>nat\<close>. A function that may raise returns a
  sum with the exception on the left; a function whose loop may run forever returns an
  option, \<open>None\<close> meaning that the call never returns.
\<close>

datatype py_error = IndexError | KeyError | TypeError | AssertionError

subsection \<open>Edit distance\<close>

text \<open>
  Modelled from the spec: \<^verbatim>\<open>Levenshtein.distance\<close> comes from the third-party
  package \<^verbatim>\<open>Levenshtein\<close>, whose code is missing here. The specification
  describes it as the standard single-character insertion/deletion/substitution
  distance; it is modelled by the textbook recurrence of that distance, in which every
  insertion, deletion and substitution of one character costs 1.
\<close>

fun levenshtein :: "'a list \<Rightarrow> 'a list \<Rightarrow> nat" where
  "levenshtein [] ys = length ys"
| "levenshtein (x # xs) [] = Suc (length xs)"
| "levenshtein (x # xs) (y # ys) =
     min (Suc (levenshtein xs (y # ys)))
       (min (Suc (levenshtein (x # xs) ys))
            (levenshtein xs ys + (if x = y then 0 else 1)))"

text \<open>
  The specification's wording of the edit distance, "minimum single-character
  insert/delete/substitute operations to transform one grid string into another":
  \<open>edit_script xs ys n\<close> holds when \<open>xs\<close> is turned into \<open>ys\<close> by a left-to-right
  script of \<open>n\<close> such operations (characters that are kept cost nothing).
\<close>

inductive edit_script :: "'a list \<Rightarrow> 'a list \<Rightarrow> nat \<Rightarrow> bool" where
  script_done: "edit_script [] [] 0"
| script_keep: "edit_script xs ys n \<Longrightarrow> edit_script (x # xs) (x # ys) n"
| script_substitute: "edit_script xs ys n \<Longrightarrow> edit_script (x # xs) (y # ys) (Suc n)"
| script_delete: "edit_script xs ys n \<Longrightarrow> edit_script (x # xs) ys (Suc n)"
| script_insert: "edit_script xs ys n \<Longrightarrow> edit_script xs (y # ys) (Suc n)"

subsection \<open>The distance matrix\<close>

text \<open>
  \<^verbatim>\<open>get_distances\<close>: two nested loops over \<^verbatim>\<open>range(len(grids))\<close>, each
  appending to a fresh list; the diagonal entry is the literal 0.
\<close>

definition get_distances :: "string list \<Rightarrow> int list list" where
  "get_distances grids =
     map (\<lambda>i. map (\<lambda>j. if i = j then 0 else int (levenshtein (grids ! i) (grids ! j)))
                 [0..<length grids])
         [0..<length grids]"

subsection \<open>Selecting the two distractors\<close>

text \<open>
  \<^verbatim>\<open>list.index(x)\<close> and \<^verbatim>\<open>list.index(x, start)\<close>: the first position of
  \<open>x\<close>, searched from \<open>start\<close>. Python raises \<^verbatim>\<open>ValueError\<close> when \<open>x\<close> does not
  occur; the source calls both only under a membership test on the same list (slice), so
  the models are applied to lists that contain \<open>x\<close>.
\<close>

definition index_of :: "'a list \<Rightarrow> 'a \<Rightarrow> nat" where
  "index_of xs x = length (takeWhile (\<lambda>y. y \<noteq> x) xs)"

definition index_from :: "'a list \<Rightarrow> 'a \<Rightarrow> nat \<Rightarrow> nat" where
  "index_from xs x start = start + index_of (drop start xs) x"

text \<open>The local variables of \<^verbatim>\<open>select_distractors\<close>; \<open>None\<close> is Python's \<^verbatim>\<open>None\<close>.\<close>

record search_state =
  id1 :: "nat option"
  id2 :: "nat option"
  min_distance :: int
  found1 :: bool
  found2 :: bool

text \<open>
  One pass through the body of the \<^verbatim>\<open>while not found2\<close> loop. In the third branch
  \<open>id1\<close> equals \<open>Some (index_of distance_list min_distance)\<close>, the second test having
  failed, so \<open>the (id1 s)\<close> is that index.
\<close>

definition search_step :: "int list \<Rightarrow> search_state \<Rightarrow> search_state" where
  "search_step distance_list s =
     (if min_distance s \<in> set distance_list then
        (if \<not> found1 s then
           s\<lparr>id1 := Some (index_of distance_list (min_distance s)), found1 := True\<rparr>
         else if id1 s \<noteq> Some (index_of distance_list (min_distance s)) then
           s\<lparr>id2 := Some (index_of distance_list (min_distance s)), found2 := True\<rparr>
         else if min_distance s \<in> set (drop (the (id1 s) + 1) distance_list) then
           s\<lparr>id2 := Some (index_from distance_list (min_distance s) (the (id1 s) + 1)),
             found2 := True\<rparr>
         else s\<lparr>min_distance := min_distance s + 1\<rparr>)
      else s\<lparr>min_distance := min_distance s + 1\<rparr>)"

text \<open>The loop itself. It has no bound: \<open>None\<close> is the run that never leaves the loop.\<close>

partial_function (option) search_loop :: "int list \<Rightarrow> search_state \<Rightarrow> search_state option" where
  "search_loop distance_list s =
     (if \<not> found2 s then search_loop distance_list (search_step distance_list s) else Some s)"

definition initial_state :: search_state where
  "initial_state =
     \<lparr>id1 = None, id2 = None, min_distance = 1, found1 = False, found2 = False\<rparr>"

text \<open>
  \<^verbatim>\<open>select_distractors(target_grid, distances)\<close>. The row lookup
  \<^verbatim>\<open>distances[target_grid]\<close> raises \<^verbatim>\<open>IndexError\<close> out of range; the caller
  passes the indices of \<^verbatim>\<open>range(len(grids))\<close>, hence a natural number.
\<close>

definition select_distractors ::
  "nat \<Rightarrow> int list list \<Rightarrow> (py_error + nat option \<times> nat option) option" where
  "select_distractors target_grid distances =
     (if target_grid < length distances then
        map_option (\<lambda>s. Inr (id1 s, id2 s))
          (search_loop (distances ! target_grid) initial_state)
      else Some (Inl IndexError))"


text \<open>
  \<^verbatim>\<open>generate_samples\<close>: one triplet per grid, in index order. A run of
  \<^verbatim>\<open>select_distractors\<close> that does not return keeps the whole call from returning;
  indexing \<^verbatim>\<open>grids\<close> with \<^verbatim>\<open>None\<close> would raise \<^verbatim>\<open>TypeError\<close>.
\<close>

type_synonym triplet = "string \<times> string \<times> string"

fun samples_loop ::
  "string list \<Rightarrow> int list list \<Rightarrow> nat list \<Rightarrow> triplet list \<Rightarrow> (py_error + triplet list) option" where
  "samples_loop grids edit_distances [] samples = Some (Inr samples)"
| "samples_loop grids edit_distances (target_grid_id # rest) samples =
     (case select_distractors target_grid_id edit_distances of
        None \<Rightarrow> None
      | Some (Inl e) \<Rightarrow> Some (Inl e)
      | Some (Inr (None, _)) \<Rightarrow> Some (Inl TypeError)
      | Some (Inr (Some second_grid_id, None)) \<Rightarrow> Some (Inl TypeError)
      | Some (Inr (Some second_grid_id, Some third_grid_id)) \<Rightarrow>
          (if target_grid_id < length grids \<and> second_grid_id < length grids
              \<and> third_grid_id < length grids
           then samples_loop grids edit_distances rest
                  (samples @ [(grids ! target_grid_id, grids ! second_grid_id,
                               grids ! third_grid_id)])
           else Some (Inl IndexError)))"

definition generate_samples :: "string list \<Rightarrow> (py_error + triplet list) option" where
  "generate_samples grids = samples_loop grids (get_distances grids) [0..<length grids] []"

subsection \<open>Strings\<close>

text \<open>\<^verbatim>\<open>str.split(sep)\<close> for a one-character separator: empty pieces are kept.\<close>

fun split_on :: "char \<Rightarrow> string \<Rightarrow> string list" where
  "split_on sep [] = [[]]"
| "split_on sep (c # cs) =
     (if c = sep then [] # split_on sep cs
      else (case split_on sep cs of w # ws \<Rightarrow> (c # w) # ws | [] \<Rightarrow> [[c]]))"

text \<open>
  \<^verbatim>\<open>str.replace(old, new)\<close>: every non-overlapping occurrence of \<open>old\<close>, from the
  left; with an empty \<open>old\<close> Python puts \<open>new\<close> around every character.
\<close>

function replace_all :: "string \<Rightarrow> string \<Rightarrow> string \<Rightarrow> string" where
  "replace_all old new [] = []"
| "replace_all old new (c # cs) =
     (if old \<noteq> [] \<and> prefix old (c # cs)
      then new @ replace_all old new (drop (length old) (c # cs))
      else c # replace_all old new cs)"
  by pat_completeness auto
termination
  by (relation "measure (\<lambda>(old, new, s). length s)") auto

definition replace :: "string \<Rightarrow> string \<Rightarrow> string \<Rightarrow> string" where
  "replace s old new =
     (if old = [] then new @ concat (map (\<lambda>c. c # new) s) else replace_all old new s)"

subsection \<open>The generator\<close>

text \<open>
  One entry of \<^verbatim>\<open>MULTILINGUAL_PATTERNS\<close>. The table is imported from
  \<^verbatim>\<open>resources/localization_utils.py\<close> and is a parameter of the model: a map from
  language codes to entries, a missing language raising \<^verbatim>\<open>KeyError\<close>.
\<close>

record locale_patterns =
  p1_tag :: string
  p2_tag :: string
  p2_options :: string

type_synonym pattern_table = "string \<rightharpoonup> locale_patterns"

text \<open>
  \<^verbatim>\<open>_generate_regex\<close>. The f-strings are not raw: \<^verbatim>\<open>\s\<close> stays a backslash and
  an \<open>s\<close>, \<^verbatim>\<open>\n\<close> is a newline character. Any other player falls off the end of
  the method, which returns \<^verbatim>\<open>None\<close>.
\<close>

definition generate_regex :: "pattern_table \<Rightarrow> string \<Rightarrow> string \<Rightarrow> py_error + string option" where
  "generate_regex patterns lang player =
     (if player = ''p1'' then
        (case patterns lang of
           None \<Rightarrow> Inl KeyError
         | Some entry \<Rightarrow>
             Inr (Some (''^'' @ p1_tag entry @ CHR 0x5C # ''s*(?P<content>.+)''
                        @ CHR 0x0A # ''*(?P<remainder>.*)'')))
      else if player = ''p2'' then
        (case patterns lang of
           None \<Rightarrow> Inl KeyError
         | Some entry \<Rightarrow>
             Inr (Some (''^'' @ p2_tag entry @ CHR 0x5C # ''s*(?P<content>'' @ p2_options entry
                        @ '')'' @ CHR 0x0A # ''*(?P<remainder>.*)'')))
      else Inr None)"

text \<open>
  Modelled from the spec: \<^verbatim>\<open>add_game_instance\<close> is inherited from the framework
  class \<^verbatim>\<open>GameInstanceGenerator\<close>, whose code is missing here. The specification
  has every instance tagged with the counter of its experiment; the method is taken to
  return a fresh dictionary that holds this game id. A game instance is a Python
  dictionary from field names to values.
\<close>

datatype py_value = PyStr string | PyInt int | PyNone

type_synonym game_instance = "string \<rightharpoonup> py_value"

definition add_game_instance :: "int \<Rightarrow> game_instance" where
  "add_game_instance game_id = [''game_id'' \<mapsto> PyInt game_id]"

definition py_optional :: "string option \<Rightarrow> py_value" where
  "py_optional v = (case v of None \<Rightarrow> PyNone | Some s \<Rightarrow> PyStr s)"

text \<open>
  The local grid variables of one pass through the \<^verbatim>\<open>for i in [1, 2, 3]\<close> loop.
  The last two are assigned only after the assertion; until then they hold the empty
  string that the source assigns to them first.
\<close>

record slots =
  target_grid :: string
  second_grid :: string
  third_grid :: string
  first_grid :: string
  target_grid_name :: string

text \<open>
  The \<^verbatim>\<open>if i == 1 / elif i == 2 / elif i == 3\<close> statement, assignment by
  assignment; each \<open>let\<close> is one assignment and reads the variables as they are then.
\<close>

definition assign_slots :: "int \<Rightarrow> string list \<Rightarrow> slots \<Rightarrow> slots" where
  "assign_slots i targets v =
     (if i = 1 then
        (let v = v\<lparr>first_grid := target_grid v\<rparr>;
             v = v\<lparr>target_grid_name := targets ! 0\<rparr>
         in v)
      else if i = 2 then
        (let v = v\<lparr>first_grid := second_grid v\<rparr>;
             v = v\<lparr>second_grid := target_grid v\<rparr>;
             v = v\<lparr>target_grid_name := targets ! 1\<rparr>
         in v)
      else if i = 3 then
        (let v = v\<lparr>first_grid := third_grid v\<rparr>;
             v = v\<lparr>third_grid := target_grid v\<rparr>;
             v = v\<lparr>target_grid_name := targets ! 2\<rparr>
         in v)
      else v)"

text \<open>
  The body of the \<^verbatim>\<open>for i in [1, 2, 3]\<close> loop of \<^verbatim>\<open>on_generate\<close>, from the
  unpacking of the sample to the last field written. The two prompt templates have been
  read before the loop and are parameters here.
\<close>

definition on_generate_instance ::
  "pattern_table \<Rightarrow> string \<Rightarrow> string \<Rightarrow> string \<Rightarrow> triplet \<Rightarrow> int \<Rightarrow> int
     \<Rightarrow> py_error + game_instance" where
  "on_generate_instance patterns lang player_a_prompt_header player_b_prompt_header
       sample i game_counter =
     (case sample of (target, second, third) \<Rightarrow>
      let v = \<lparr>target_grid = target, second_grid = second, third_grid = third,
               first_grid = [], target_grid_name = []\<rparr>;
          game_instance = add_game_instance game_counter;
          game_instance = game_instance(''player_1_prompt_header'' \<mapsto>
            PyStr (replace (replace (replace player_a_prompt_header
                      ''TARGET_GRID'' (target_grid v))
                      ''SECOND_GRID'' (second_grid v))
                      ''THIRD_GRID'' (third_grid v)));
          game_instance = game_instance(''player_1_target_grid'' \<mapsto> PyStr (target_grid v));
          game_instance = game_instance(''player_1_second_grid'' \<mapsto> PyStr (second_grid v));
          game_instance = game_instance(''player_1_third_grid'' \<mapsto> PyStr (third_grid v))
      in
      (case patterns lang of
         None \<Rightarrow> Inl KeyError
       | Some entry \<Rightarrow>
           let targets = split_on CHR ''|'' (p2_options entry) in
           if length targets \<noteq> 3 then Inl AssertionError
           else
             let v = v\<lparr>first_grid := []\<rparr>;
                 v = v\<lparr>target_grid_name := []\<rparr>;
                 v = assign_slots i targets v;
                 game_instance = game_instance(''player_2_prompt_header'' \<mapsto>
                   PyStr (replace (replace (replace player_b_prompt_header
                             ''FIRST_GRID'' (first_grid v))
                             ''SECOND_GRID'' (second_grid v))
                             ''THIRD_GRID'' (third_grid v)));
                 game_instance = game_instance(''player_2_first_grid'' \<mapsto> PyStr (first_grid v));
                 game_instance = game_instance(''player_2_second_grid'' \<mapsto> PyStr (second_grid v));
                 game_instance = game_instance(''player_2_third_grid'' \<mapsto> PyStr (third_grid v));
                 game_instance = game_instance(''target_grid_name'' \<mapsto>
                   PyStr (target_grid_name v))
             in
             (case generate_regex patterns lang ''p1'' of
                Inl e \<Rightarrow> Inl e
              | Inr pattern1 \<Rightarrow>
                  (case generate_regex patterns lang ''p2'' of
                     Inl e \<Rightarrow> Inl e
                   | Inr pattern2 \<Rightarrow>
                       Inr (game_instance
                             (''player_1_response_pattern'' \<mapsto> py_optional pattern1,
                              ''player_2_response_pattern'' \<mapsto> py_optional pattern2))))))"

text \<open>
  The loop \<^verbatim>\<open>for i in [1, 2, 3]\<close> for one sample: the instances are appended to the
  experiment and \<^verbatim>\<open>game_counter\<close> grows by one after each.
\<close>

fun slot_loop ::
  "pattern_table \<Rightarrow> string \<Rightarrow> string \<Rightarrow> string \<Rightarrow> triplet \<Rightarrow> int list \<Rightarrow> int
     \<Rightarrow> game_instance list \<Rightarrow> py_error + game_instance list \<times> int" where
  "slot_loop patterns lang header_a header_b sample [] game_counter instances =
     Inr (instances, game_counter)"
| "slot_loop patterns lang header_a header_b sample (i # rest) game_counter instances =
     (case on_generate_instance patterns lang header_a header_b sample i game_counter of
        Inl e \<Rightarrow> Inl e
      | Inr game_instance \<Rightarrow>
          slot_loop patterns lang header_a header_b sample rest (game_counter + 1)
            (instances @ [game_instance]))"

text \<open>The loop \<^verbatim>\<open>for sample in samples\<close> of one experiment.\<close>

fun sample_loop ::
  "pattern_table \<Rightarrow> string \<Rightarrow> string \<Rightarrow> string \<Rightarrow> triplet list \<Rightarrow> int
     \<Rightarrow> game_instance list \<Rightarrow> py_error + game_instance list \<times> int" where
  "sample_loop patterns lang header_a header_b [] game_counter instances =
     Inr (instances, game_counter)"
| "sample_loop patterns lang header_a header_b (sample # rest) game_counter instances =
     (case slot_loop patterns lang header_a header_b sample [1, 2, 3] game_counter instances of
        Inl e \<Rightarrow> Inl e
      | Inr (instances', game_counter') \<Rightarrow>
          sample_loop patterns lang header_a header_b rest game_counter' instances')"

subsection \<open>Response patterns as regular expressions\<close>

text \<open>
  The generated patterns are strings for Python's \<^verbatim>\<open>re\<close> module, which is part of the
  Python standard library and not of the repository. To say what a pattern matches, the
  part of \<^verbatim>\<open>re\<close> that the patterns use is modelled here: literal characters,
  \<^verbatim>\<open>.\<close>, \<^verbatim>\<open>^\<close>, \<^verbatim>\<open>\s\<close>, escaped punctuation, the greedy quantifiers
  \<^verbatim>\<open>*\<close>, \<^verbatim>\<open>+\<close>, \<^verbatim>\<open>?\<close>, alternation, and groups (plain, non-capturing and
  named). Matching is \<^verbatim>\<open>re.match\<close> without flags: anchored at the start of the
  response, backtracking in Python's order. Characters are the code points below 256.
\<close>

datatype regex =
  Eps
| Lit char
| AnyChar
| Whitespace
| Start
| Seq regex regex
| Alt regex regex
| Star regex
| Opt regex
| Group "string option" regex

text \<open>The characters with a meaning of their own in a pattern.\<close>

definition special :: "char \<Rightarrow> bool" where
  "special c \<longleftrightarrow> c \<in> set (CHR 0x5C # ''^$.|?*+()[]{}'')"

text \<open>What \<^verbatim>\<open>\s\<close> matches among the code points below 256.\<close>

definition is_space :: "char \<Rightarrow> bool" where
  "is_space c \<longleftrightarrow>
     of_char c \<in> {9, 10, 11, 12, 13, 28, 29, 30, 31, 32, 133, 160 :: nat}"

text \<open>A group name is a Python identifier, here over letters, digits and the underscore.\<close>

definition is_digit :: "char \<Rightarrow> bool" where
  "is_digit c \<longleftrightarrow> (let n = of_char c :: nat in 48 \<le> n \<and> n \<le> 57)"

definition is_ident_char :: "char \<Rightarrow> bool" where
  "is_ident_char c \<longleftrightarrow>
     (let n = of_char c :: nat
      in (48 \<le> n \<and> n \<le> 57) \<or> (65 \<le> n \<and> n \<le> 90) \<or> (97 \<le> n \<and> n \<le> 122) \<or> n = 95)"

paragraph \<open>Reading a pattern\<close>

text \<open>
  A pattern is read from left to right. A frame holds what has been read of one group (or
  of the whole pattern): the finished alternatives and the items of the alternative being
  read, both latest first, and whether the latest item may take a quantifier.
\<close>

record frame =
  group_name :: "string option"
  branches :: "regex list"
  items :: "regex list"
  quantifiable :: bool

datatype mode = Normal | Escape | Open | OpenQ | OpenP | Name string

type_synonym parse_state = "mode \<times> frame \<times> frame list"

definition sequence :: "regex list \<Rightarrow> regex" where
  "sequence rs = foldr Seq rs Eps"

fun choice :: "regex list \<Rightarrow> regex" where
  "choice [] = Eps"
| "choice [r] = r"
| "choice (r # rs) = Alt r (choice rs)"

definition frame_regex :: "frame \<Rightarrow> regex" where
  "frame_regex f = choice (rev (sequence (rev (items f)) # branches f))"

definition new_frame :: "string option \<Rightarrow> frame" where
  "new_frame n = \<lparr>group_name = n, branches = [], items = [], quantifiable = False\<rparr>"

definition add_item :: "regex \<Rightarrow> bool \<Rightarrow> frame \<Rightarrow> frame" where
  "add_item r q f = f\<lparr>items := r # items f, quantifiable := q\<rparr>"

definition quantify :: "(regex \<Rightarrow> regex) \<Rightarrow> frame \<Rightarrow> frame option" where
  "quantify q f =
     (case items f of
        [] \<Rightarrow> None
      | r # rs \<Rightarrow> if quantifiable f then Some (f\<lparr>items := q r # rs, quantifiable := False\<rparr>)
                 else None)"

text \<open>
  One character of the pattern. \<open>None\<close> is a pattern that \<^verbatim>\<open>re\<close> rejects or that
  lies outside the modelled part (character sets, counted repetition, \<^verbatim>\<open>$\<close>, lazy
  quantifiers, other escapes and group extensions).
\<close>

definition normal_step :: "frame \<Rightarrow> frame list \<Rightarrow> char \<Rightarrow> parse_state option" where
  "normal_step f stack c =
     (if c = CHR 0x5C then Some (Escape, f, stack)
      else if c = CHR ''('' then Some (Open, f, stack)
      else if c = CHR '')'' then
        (case stack of
           [] \<Rightarrow> None
         | parent # rest \<Rightarrow>
             Some (Normal, add_item (Group (group_name f) (frame_regex f)) True parent, rest))
      else if c = CHR ''|'' then
        Some (Normal, f\<lparr>branches := sequence (rev (items f)) # branches f, items := [],
                         quantifiable := False\<rparr>, stack)
      else if c = CHR ''*'' then map_option (\<lambda>f'. (Normal, f', stack)) (quantify Star f)
      else if c = CHR ''+'' then
        map_option (\<lambda>f'. (Normal, f', stack)) (quantify (\<lambda>r. Seq r (Star r)) f)
      else if c = CHR ''?'' then map_option (\<lambda>f'. (Normal, f', stack)) (quantify Opt f)
      else if c = CHR ''.'' then Some (Normal, add_item AnyChar True f, stack)
      else if c = CHR ''^'' then Some (Normal, add_item Start False f, stack)
      else if special c then None
      else Some (Normal, add_item (Lit c) True f, stack))"

fun parse_step :: "parse_state \<Rightarrow> char \<Rightarrow> parse_state option" where
  "parse_step (Normal, f, stack) c = normal_step f stack c"
| "parse_step (Escape, f, stack) c =
     (if c = CHR ''s'' then Some (Normal, add_item Whitespace True f, stack)
      else if special c then Some (Normal, add_item (Lit c) True f, stack)
      else None)"
| "parse_step (Open, f, stack) c =
     (if c = CHR ''?'' then Some (OpenQ, f, stack)
      else normal_step (new_frame None) (f # stack) c)"
| "parse_step (OpenQ, f, stack) c =
     (if c = CHR ''P'' then Some (OpenP, f, stack)
      else if c = CHR '':'' then Some (Normal, new_frame None, f # stack)
      else None)"
| "parse_step (OpenP, f, stack) c =
     (if c = CHR ''<'' then Some (Name [], f, stack) else None)"
| "parse_step (Name n, f, stack) c =
     (if c = CHR ''>'' then
        (if n = [] then None else Some (Normal, new_frame (Some n), f # stack))
      else if is_ident_char c \<and> (n = [] \<longrightarrow> \<not> is_digit c) then Some (Name (n @ [c]), f, stack)
      else None)"

fun parse_from :: "parse_state \<Rightarrow> string \<Rightarrow> parse_state option" where
  "parse_from st [] = Some st"
| "parse_from st (c # cs) =
     (case parse_step st c of None \<Rightarrow> None | Some st' \<Rightarrow> parse_from st' cs)"

definition parse :: "string \<Rightarrow> regex option" where
  "parse pattern =
     (case parse_from (Normal, new_frame None, []) pattern of
        Some (Normal, f, []) \<Rightarrow> Some (frame_regex f)
      | _ \<Rightarrow> None)"

paragraph \<open>Matching\<close>

text \<open>
  A position in the response is the text still to be read; with it go the groups
  captured so far. \<open>matches whole r (rest, caps)\<close> lists the ways in which \<open>r\<close> can match
  at \<open>rest\<close>, in the order in which a backtracking matcher tries them: the earlier
  alternative first, the longer repetition first.
\<close>

type_synonym captures = "string \<rightharpoonup> string"

type_synonym position = "string \<times> captures"

text \<open>
  Greedy repetition of a matcher \<open>m\<close>: one more pass and then the rest of the repetition,
  before stopping here. A pass that read nothing ends the repetition, so there are never
  more passes than characters left; \<open>n\<close> bounds the number of passes.
\<close>

fun repeat :: "(position \<Rightarrow> position list) \<Rightarrow> nat \<Rightarrow> position \<Rightarrow> position list" where
  "repeat m 0 p = [p]"
| "repeat m (Suc n) p =
     concat (map (\<lambda>p'. if length (fst p') < length (fst p) then repeat m n p' else []) (m p))
       @ [p]"

fun matches :: "string \<Rightarrow> regex \<Rightarrow> position \<Rightarrow> position list" where
  "matches whole Eps p = [p]"
| "matches whole (Lit c) (rest, caps) =
     (case rest of [] \<Rightarrow> [] | x # xs \<Rightarrow> if x = c then [(xs, caps)] else [])"
| "matches whole AnyChar (rest, caps) =
     (case rest of [] \<Rightarrow> [] | x # xs \<Rightarrow> if x \<noteq> CHR 0x0A then [(xs, caps)] else [])"
| "matches whole Whitespace (rest, caps) =
     (case rest of [] \<Rightarrow> [] | x # xs \<Rightarrow> if is_space x then [(xs, caps)] else [])"
| "matches whole Start (rest, caps) =
     (if length rest = length whole then [(rest, caps)] else [])"
| "matches whole (Seq r1 r2) p = concat (map (matches whole r2) (matches whole r1 p))"
| "matches whole (Alt r1 r2) p = matches whole r1 p @ matches whole r2 p"
| "matches whole (Star r) p = repeat (matches whole r) (length (fst p)) p"
| "matches whole (Opt r) p = matches whole r p @ [p]"
| "matches whole (Group n r) (rest, caps) =
     map (\<lambda>(rest', caps').
            (rest', case n of None \<Rightarrow> caps'
                    | Some name \<Rightarrow> caps'(name \<mapsto> take (length rest - length rest') rest)))
         (matches whole r (rest, caps))"

text \<open>
  \<^verbatim>\<open>re.match(pattern, response)\<close>: an error for a pattern that cannot be read,
  otherwise the groups of the first match, or \<open>None\<close> when there is no match.
\<close>

datatype re_error = PatternError

definition re_match :: "string \<Rightarrow> string \<Rightarrow> re_error + captures option" where
  "re_match pattern response =
     (case parse pattern of
        None \<Rightarrow> Inl PatternError
      | Some r \<Rightarrow>
          Inr (case matches response r (response, Map.empty) of
                 [] \<Rightarrow> None
               | (rest, caps) # _ \<Rightarrow> Some caps))"

section \<open>Notions used in the proofs\<close>

text \<open>
  The invariant of the search loop. \<open>nearest row i\<close>: \<open>i\<close> is the lowest index that
  attains the smallest entry of \<open>row\<close> that is at least 1. The loop runs through three
  phases: nothing found, \<open>id1\<close> found, both found.
\<close>

definition nearest :: "int list \<Rightarrow> nat \<Rightarrow> bool" where
  "nearest row i \<longleftrightarrow>
     i < length row \<and> 1 \<le> row ! i \<and> (\<forall>k<i. row ! k \<noteq> row ! i) \<and>
     (\<forall>k<length row. 1 \<le> row ! k \<longrightarrow> row ! i \<le> row ! k)"

definition none_below :: "int list \<Rightarrow> int \<Rightarrow> bool" where
  "none_below row d \<longleftrightarrow> (\<forall>k<length row. 1 \<le> row ! k \<longrightarrow> d \<le> row ! k)"

definition only_below :: "int list \<Rightarrow> nat \<Rightarrow> int \<Rightarrow> bool" where
  "only_below row i d \<longleftrightarrow> (\<forall>k<length row. 1 \<le> row ! k \<longrightarrow> row ! k < d \<longrightarrow> k = i)"

definition phase_a :: "int list \<Rightarrow> search_state \<Rightarrow> bool" where
  "phase_a row s \<longleftrightarrow>
     \<not> found1 s \<and> \<not> found2 s \<and> id1 s = None \<and> id2 s = None \<and>
     1 \<le> min_distance s \<and> none_below row (min_distance s)"

definition phase_b :: "int list \<Rightarrow> search_state \<Rightarrow> nat \<Rightarrow> bool" where
  "phase_b row s i \<longleftrightarrow>
     found1 s \<and> \<not> found2 s \<and> id1 s = Some i \<and> id2 s = None \<and>
     nearest row i \<and> row ! i \<le> min_distance s \<and> only_below row i (min_distance s)"

definition phase_c :: "int list \<Rightarrow> search_state \<Rightarrow> nat \<Rightarrow> nat \<Rightarrow> bool" where
  "phase_c row s i j \<longleftrightarrow>
     found1 s \<and> found2 s \<and> id1 s = Some i \<and> id2 s = Some j \<and>
     nearest row i \<and> j < length row \<and> j \<noteq> i \<and> row ! i \<le> row ! j \<and>
     only_below row i (row ! j)"

definition search_inv :: "int list \<Rightarrow> search_state \<Rightarrow> bool" where
  "search_inv row s \<longleftrightarrow>
     phase_a row s \<or> (\<exists>i. phase_b row s i) \<or> (\<exists>i j. phase_c row s i j)"

definition search_measure :: "int list \<Rightarrow> search_state \<Rightarrow> nat" where
  "search_measure row s =
     2 * nat (Max (set row) + 1 - min_distance s) +
     (if found1 s then 0 else 1) + (if found2 s then 0 else 1)"

definition two_positive :: "int list \<Rightarrow> bool" where
  "two_positive row \<longleftrightarrow>
     (\<exists>k1<length row. \<exists>k2<length row. k1 \<noteq> k2 \<and> 1 \<le> row ! k1 \<and> 1 \<le> row ! k2)"


text \<open>Locale tables for the worked inputs.\<close>

definition english :: pattern_table where
  "english = [''en'' \<mapsto>
     \<lparr>p1_tag = ''Expression:'', p2_tag = ''Answer:'', p2_options = ''first|second|third''\<rparr>]"

definition two_options :: pattern_table where
  "two_options = [''en'' \<mapsto>
     \<lparr>p1_tag = ''Expression:'', p2_tag = ''Answer:'', p2_options = ''first|second''\<rparr>]"

definition empty_option :: pattern_table where
  "empty_option = [''en'' \<mapsto>
     \<lparr>p1_tag = ''Expression:'', p2_tag = ''Answer:'', p2_options = ''first||third''\<rparr>]"

definition bracket_tag :: pattern_table where
  "bracket_tag = [''en'' \<mapsto>
     \<lparr>p1_tag = ''Expression:'', p2_tag = ''Answer (slot):'',
      p2_options = ''first|second|third''\<rparr>]"

definition nested_names :: pattern_table where
  "nested_names = [''en'' \<mapsto>
     \<lparr>p1_tag = ''Expression:'', p2_tag = ''Answer:'', p2_options = ''a|ab|c''\<rparr>]"

text \<open>The pattern of player 2 for one entry of the table, as \<open>generate_regex\<close> builds it.\<close>

definition p2_pattern :: "locale_patterns \<Rightarrow> string" where
  "p2_pattern entry =
     ''^'' @ p2_tag entry @ CHR 0x5C # ''s*(?P<content>'' @ p2_options entry
       @ '')'' @ CHR 0x0A # ''*(?P<remainder>.*)''"

text \<open>
  The regular expression that the player-2 pattern denotes when the tag and the three
  names are plain text; the part after the \<open>content\<close> group; and the ways in which the
  \<open>content\<close> group matches at a position, one for each name that begins the text there.
\<close>

definition p2_regex :: "string \<Rightarrow> string list \<Rightarrow> regex" where
  "p2_regex tag names =
     sequence (Start # map Lit tag @
       [Star Whitespace,
        Group (Some ''content'') (choice (map (\<lambda>n. sequence (map Lit n)) names)),
        Star (Lit CHR 0x0A),
        Group (Some ''remainder'') (sequence [Star AnyChar])])"

definition tail_regex :: regex where
  "tail_regex =
     sequence [Star (Lit CHR 0x0A), Group (Some ''remainder'') (sequence [Star AnyChar])]"

definition candidates :: "string list \<Rightarrow> position \<Rightarrow> position list" where
  "candidates names p =
     concat (map (\<lambda>n. if prefix n (fst p)
                         then [(drop (length n) (fst p), (snd p)(''content'' \<mapsto> n))] else [])
                 names)"


lemma levenshtein_Nil2: "levenshtein xs [] = length xs"
  by (cases xs) simp_all

lemma levenshtein_same: "levenshtein xs xs = 0"
  by (induction xs) simp_all

lemma levenshtein_commute: "levenshtein xs ys = levenshtein ys xs"
proof (induction xs ys rule: levenshtein.induct)
  case (1 ys)
  show ?case by (simp add: levenshtein_Nil2)
next
  case (2 x xs)
  show ?case by simp
next
  case (3 x xs y ys)
  then show ?case by (simp add: min.left_commute eq_commute [of x y])
qed

lemma levenshtein_delete: "levenshtein (x # xs) ys \<le> Suc (levenshtein xs ys)"
  by (cases ys) (simp_all add: levenshtein_Nil2)

lemma levenshtein_insert: "levenshtein xs (y # ys) \<le> Suc (levenshtein xs ys)"
  by (cases xs) simp_all

lemma levenshtein_lower: "edit_script xs ys n \<Longrightarrow> levenshtein xs ys \<le> n"
proof (induction rule: edit_script.induct)
  case script_done
  show ?case by simp
next
  case (script_keep xs ys n x)
  then show ?case by simp
next
  case (script_substitute xs ys n x y)
  then show ?case by (simp add: min_le_iff_disj)
next
  case (script_delete xs ys n x)
  with levenshtein_delete [of x xs ys] show ?case by simp
next
  case (script_insert xs ys n y)
  with levenshtein_insert [of xs y ys] show ?case by simp
qed

lemma insert_all: "edit_script [] ys (length ys)"
  by (induction ys) (auto intro: edit_script.intros)

lemma delete_all: "edit_script xs [] (length xs)"
  by (induction xs) (auto intro: edit_script.intros)

lemma levenshtein_script: "edit_script xs ys (levenshtein xs ys)"
proof (induction xs ys rule: levenshtein.induct)
  case (1 ys)
  show ?case by (simp add: insert_all)
next
  case (2 x xs)
  show ?case using delete_all [of "x # xs"] by simp
next
  case (3 x xs y ys)
  let ?a = "Suc (levenshtein xs (y # ys))"
  let ?b = "Suc (levenshtein (x # xs) ys)"
  let ?c = "levenshtein xs ys + (if x = y then 0 else 1)"
  have a: "edit_script (x # xs) (y # ys) ?a" using 3(1) by (rule script_delete)
  have b: "edit_script (x # xs) (y # ys) ?b" using 3(2) by (rule script_insert)
  have c: "edit_script (x # xs) (y # ys) ?c"
    using 3(3) by (auto intro: script_keep script_substitute)
  have "levenshtein (x # xs) (y # ys) = min ?a (min ?b ?c)" by simp
  then have "levenshtein (x # xs) (y # ys) \<in> {?a, ?b, ?c}"
    by (simp only: min_def insert_iff split: if_split) simp
  with a b c show ?case by (metis insertE singletonD)
qed

lemma levenshtein_Least: "levenshtein xs ys = (LEAST n. edit_script xs ys n)"
  by (rule Least_equality [symmetric]) (auto intro: levenshtein_script levenshtein_lower)

lemma levenshtein_eq_0: "levenshtein xs ys = 0 \<longleftrightarrow> xs = ys"
proof
  have "edit_script xs ys n \<Longrightarrow> n = 0 \<Longrightarrow> xs = ys" for n
    by (induction rule: edit_script.induct) auto
  then show "levenshtein xs ys = 0 \<Longrightarrow> xs = ys"
    using levenshtein_script [of xs ys] by simp
qed (simp add: levenshtein_same)

lemma length_get_distances: "length (get_distances grids) = length grids"
  by (simp add: get_distances_def)

lemma get_distances_nth:
  "i < length grids \<Longrightarrow> j < length grids \<Longrightarrow>
   get_distances grids ! i ! j = (if i = j then 0 else int (levenshtein (grids ! i) (grids ! j)))"
  by (simp add: get_distances_def)

lemma get_distances_row_length:
  "i < length grids \<Longrightarrow> length (get_distances grids ! i) = length grids"
  by (simp add: get_distances_def)

lemma index_of_less: "x \<in> set xs \<Longrightarrow> index_of xs x < length xs"
  unfolding index_of_def by (induction xs) auto

lemma nth_index_of: "x \<in> set xs \<Longrightarrow> xs ! index_of xs x = x"
  unfolding index_of_def by (induction xs) auto

lemma index_of_first: "k < index_of xs x \<Longrightarrow> xs ! k \<noteq> x"
  unfolding index_of_def
proof (induction xs arbitrary: k)
  case Nil
  then show ?case by simp
next
  case (Cons a xs)
  then show ?case by (cases k) (auto split: if_splits)
qed

lemma index_of_eqI:
  assumes "i < length xs" "xs ! i = x" "\<forall>k<i. xs ! k \<noteq> x"
  shows "index_of xs x = i"
proof -
  have mem: "x \<in> set xs" using assms(1,2) nth_mem by blast
  have "\<not> i < index_of xs x" using index_of_first [of i xs x] assms(2) by blast
  moreover have "\<not> index_of xs x < i" using assms(3) nth_index_of [OF mem] by blast
  ultimately show ?thesis by simp
qed

lemma index_from_props:
  assumes "x \<in> set (drop n xs)"
  shows "n \<le> index_from xs x n" "index_from xs x n < length xs" "xs ! index_from xs x n = x"
proof -
  show "n \<le> index_from xs x n" by (simp add: index_from_def)
  have l: "index_of (drop n xs) x < length xs - n"
    using index_of_less [OF assms] by simp
  then show "index_from xs x n < length xs" by (simp add: index_from_def)
  have "drop n xs ! index_of (drop n xs) x = x" using nth_index_of [OF assms] .
  moreover have "n \<le> length xs" using l by simp
  ultimately show "xs ! index_from xs x n = x" by (simp add: index_from_def)
qed

lemma not_in_drop:
  assumes "x \<notin> set (drop n xs)" "n \<le> k" "k < length xs"
  shows "xs ! k \<noteq> x"
proof -
  have "k - n < length (drop n xs)" using assms(2,3) by simp
  then have "drop n xs ! (k - n) \<in> set (drop n xs)" by (rule nth_mem)
  moreover have "drop n xs ! (k - n) = xs ! k" using assms(2,3) by simp
  ultimately show ?thesis using assms(1) by metis
qed

lemma search_inv_initial: "search_inv row initial_state"
  by (simp add: search_inv_def phase_a_def none_below_def initial_state_def)

lemma none_below_Suc:
  assumes "none_below row d" "d \<notin> set row"
  shows "none_below row (d + 1)"
  unfolding none_below_def
proof (intro allI impI)
  fix k assume k: "k < length row" "1 \<le> row ! k"
  have "d \<le> row ! k" using assms(1) k by (simp add: none_below_def)
  moreover have "row ! k \<noteq> d" using assms(2) k(1) nth_mem by metis
  ultimately show "d + 1 \<le> row ! k" by simp
qed

lemma only_below_Suc:
  assumes "only_below row i d" "\<forall>k<length row. row ! k = d \<longrightarrow> k = i"
  shows "only_below row i (d + 1)"
  unfolding only_below_def
proof (intro allI impI)
  fix k assume k: "k < length row" "1 \<le> row ! k" "row ! k < d + 1"
  show "k = i"
  proof (cases "row ! k = d")
    case True
    then show ?thesis using assms(2) k(1) by simp
  next
    case False
    then have "row ! k < d" using k(3) by simp
    then show ?thesis using assms(1) k(1,2) by (simp add: only_below_def)
  qed
qed

lemma phase_a_step:
  assumes "phase_a row s"
  shows "phase_a row (search_step row s) \<or> (\<exists>i. phase_b row (search_step row s) i)"
proof (cases "min_distance s \<in> set row")
  case False
  then have step: "search_step row s = s\<lparr>min_distance := min_distance s + 1\<rparr>"
    by (simp add: search_step_def)
  have "none_below row (min_distance s + 1)"
    using assms False by (simp add: phase_a_def none_below_Suc)
  then have "phase_a row (search_step row s)"
    using assms unfolding step by (simp add: phase_a_def)
  then show ?thesis ..
next
  case mem: True
  let ?m = "index_of row (min_distance s)"
  have step: "search_step row s = s\<lparr>id1 := Some ?m, found1 := True\<rparr>"
    using mem assms by (simp add: search_step_def phase_a_def)
  have m_val: "row ! ?m = min_distance s" using mem by (rule nth_index_of)
  have near: "nearest row ?m"
    unfolding nearest_def
  proof (intro conjI)
    show "?m < length row" using mem by (rule index_of_less)
    show "1 \<le> row ! ?m" using assms m_val by (simp add: phase_a_def)
    show "\<forall>k<?m. row ! k \<noteq> row ! ?m" using index_of_first m_val by metis
    show "\<forall>k<length row. 1 \<le> row ! k \<longrightarrow> row ! ?m \<le> row ! k"
      using assms m_val by (simp add: phase_a_def none_below_def)
  qed
  have only: "only_below row ?m (min_distance s)"
    using assms by (simp add: phase_a_def none_below_def only_below_def not_less [symmetric])
  have "phase_b row (search_step row s) ?m"
    unfolding step using assms near only m_val by (simp add: phase_a_def phase_b_def)
  then show ?thesis by blast
qed


lemma phase_b_step:
  assumes b: "phase_b row s i"
  shows "phase_b row (search_step row s) i \<or> (\<exists>j. phase_c row (search_step row s) i j)"
proof -
  from b have f: "found1 s" "\<not> found2 s" "id1 s = Some i" "id2 s = None"
    and near: "nearest row i" and le: "row ! i \<le> min_distance s"
    and only: "only_below row i (min_distance s)"
    by (simp_all add: phase_b_def)
  have raise_md: "phase_b row (s\<lparr>min_distance := min_distance s + 1\<rparr>) i"
    if "\<forall>k<length row. row ! k = min_distance s \<longrightarrow> k = i"
    using f near le only_below_Suc [OF only that] by (simp add: phase_b_def)
  have finish: "phase_c row (s\<lparr>id2 := Some j, found2 := True\<rparr>) i j"
    if "j < length row" "j \<noteq> i" "row ! j = min_distance s" for j
    using f near le only that by (simp add: phase_c_def)
  show ?thesis
  proof (cases "min_distance s \<in> set row")
    case False
    then have step: "search_step row s = s\<lparr>min_distance := min_distance s + 1\<rparr>"
      by (simp add: search_step_def)
    have "\<forall>k<length row. row ! k = min_distance s \<longrightarrow> k = i"
      using False nth_mem by metis
    then show ?thesis unfolding step using raise_md by blast
  next
    case mem: True
    let ?m = "index_of row (min_distance s)"
    have m_less: "?m < length row" using mem by (rule index_of_less)
    have m_val: "row ! ?m = min_distance s" using mem by (rule nth_index_of)
    show ?thesis
    proof (cases "i = ?m")
      case False
      then have step: "search_step row s = s\<lparr>id2 := Some ?m, found2 := True\<rparr>"
        using mem f by (simp add: search_step_def)
      have "phase_c row (s\<lparr>id2 := Some ?m, found2 := True\<rparr>) i ?m"
        using m_less m_val False by (intro finish) auto
      then show ?thesis unfolding step by blast
    next
      case same: True
      then have ri: "row ! i = min_distance s" using m_val by simp
      show ?thesis
      proof (cases "min_distance s \<in> set (drop (i + 1) row)")
        case True
        let ?j = "index_from row (min_distance s) (i + 1)"
        have step: "search_step row s = s\<lparr>id2 := Some ?j, found2 := True\<rparr>"
          using mem f same True by (simp add: search_step_def)
        have "i + 1 \<le> ?j" "?j < length row" "row ! ?j = min_distance s"
          using index_from_props [OF True] by auto
        then have "phase_c row (s\<lparr>id2 := Some ?j, found2 := True\<rparr>) i ?j"
          by (intro finish) auto
        then show ?thesis unfolding step by blast
      next
        case False
        have step: "search_step row s = s\<lparr>min_distance := min_distance s + 1\<rparr>"
          using mem f same False by (simp add: search_step_def)
        have "\<forall>k<length row. row ! k = min_distance s \<longrightarrow> k = i"
        proof (intro allI impI)
          fix k assume k: "k < length row" "row ! k = min_distance s"
          have "\<not> k < i" using near k(2) ri by (auto simp: nearest_def)
          moreover have "\<not> i + 1 \<le> k" using not_in_drop [OF False _ k(1)] k(2) by blast
          ultimately show "k = i" by simp
        qed
        then show ?thesis unfolding step using raise_md by blast
      qed
    qed
  qed
qed

lemma search_inv_step:
  assumes "search_inv row s" "\<not> found2 s"
  shows "search_inv row (search_step row s)"
proof -
  from assms consider "phase_a row s" | i where "phase_b row s i"
    by (auto simp: search_inv_def phase_c_def)
  then show ?thesis
  proof cases
    case 1
    from phase_a_step [OF this] show ?thesis by (auto simp: search_inv_def)
  next
    case 2
    from phase_b_step [OF this] show ?thesis by (auto simp: search_inv_def)
  qed
qed

lemma search_loop_inv:
  assumes "search_loop row s = Some s'" "search_inv row s"
  shows "search_inv row s' \<and> found2 s'"
proof -
  have "search_inv row s \<longrightarrow> search_inv row s' \<and> found2 s'"
  proof (rule search_loop.raw_induct
      [where P = "\<lambda>row s s'. search_inv row s \<longrightarrow> search_inv row s' \<and> found2 s'",
        OF _ assms(1)])
    fix loop row s s'
    assume IH: "\<And>row s s'. loop row s = Some s' \<Longrightarrow>
        search_inv row s \<longrightarrow> search_inv row s' \<and> found2 s'"
      and body: "(if \<not> found2 s then loop row (search_step row s) else Some s) = Some s'"
    show "search_inv row s \<longrightarrow> search_inv row s' \<and> found2 s'"
    proof (cases "found2 s")
      case True
      with body show ?thesis by simp
    next
      case False
      with body have "loop row (search_step row s) = Some s'" by simp
      then have "search_inv row (search_step row s) \<longrightarrow> search_inv row s' \<and> found2 s'"
        by (rule IH)
      with search_inv_step [OF _ False] show ?thesis by blast
    qed
  qed
  with assms(2) show ?thesis by blast
qed

lemma min_distance_le_Max:
  assumes inv: "search_inv row s" and nf: "\<not> found2 s" and two: "two_positive row"
  shows "min_distance s \<le> Max (set row)"
proof -
  from two obtain k1 k2 where k: "k1 < length row" "k2 < length row" "k1 \<noteq> k2"
    "1 \<le> row ! k1" "1 \<le> row ! k2"
    by (auto simp: two_positive_def)
  have "\<exists>k<length row. min_distance s \<le> row ! k"
  proof -
    from inv nf consider "phase_a row s" | i where "phase_b row s i"
      by (auto simp: search_inv_def phase_c_def)
    then show ?thesis
    proof cases
      case 1
      then have "min_distance s \<le> row ! k1"
        using k(1,4) by (simp add: phase_a_def none_below_def)
      with k(1) show ?thesis by blast
    next
      case 2
      then have only: "only_below row i (min_distance s)" by (simp add: phase_b_def)
      show ?thesis
      proof (cases "k1 = i")
        case True
        then have "k2 \<noteq> i" using k(3) by simp
        then have "\<not> row ! k2 < min_distance s"
          using only k(2,5) unfolding only_below_def by blast
        with k(2) show ?thesis by (auto simp: not_less)
      next
        case False
        then have "\<not> row ! k1 < min_distance s"
          using only k(1,4) unfolding only_below_def by blast
        with k(1) show ?thesis by (auto simp: not_less)
      qed
    qed
  qed
  then obtain k where "k < length row" "min_distance s \<le> row ! k" by blast
  moreover have "row ! k \<le> Max (set row)"
    using \<open>k < length row\<close> by (intro Max_ge) simp_all
  ultimately show ?thesis by linarith
qed

lemma search_step_cases:
  "search_step row s = s\<lparr>min_distance := min_distance s + 1\<rparr> \<or>
   (\<not> found1 s \<and> (\<exists>i. search_step row s = s\<lparr>id1 := Some i, found1 := True\<rparr>)) \<or>
   (\<exists>j. search_step row s = s\<lparr>id2 := Some j, found2 := True\<rparr>)"
  unfolding search_step_def by (simp only: split: if_split) blast

lemma search_measure_step:
  assumes inv: "search_inv row s" and nf: "\<not> found2 s" and two: "two_positive row"
  shows "search_measure row (search_step row s) < search_measure row s"
proof -
  have md: "min_distance s \<le> Max (set row)" using assms by (rule min_distance_le_Max)
  from search_step_cases [of row s] show ?thesis
  proof (elim disjE conjE exE)
    assume "search_step row s = s\<lparr>min_distance := min_distance s + 1\<rparr>"
    then show ?thesis using md by (simp add: search_measure_def)
  next
    fix i assume "\<not> found1 s" "search_step row s = s\<lparr>id1 := Some i, found1 := True\<rparr>"
    then show ?thesis by (simp add: search_measure_def)
  next
    fix j assume "search_step row s = s\<lparr>id2 := Some j, found2 := True\<rparr>"
    then show ?thesis using nf by (simp add: search_measure_def)
  qed
qed

lemma search_loop_terminates:
  assumes two: "two_positive row"
  shows "search_inv row s \<Longrightarrow> \<exists>s'. search_loop row s = Some s'"
proof (induction "search_measure row s" arbitrary: s rule: less_induct)
  case less
  show ?case
  proof (cases "found2 s")
    case True
    then show ?thesis by (subst search_loop.simps) simp
  next
    case False
    have "search_measure row (search_step row s) < search_measure row s"
      using less.prems False two by (rule search_measure_step)
    moreover have "search_inv row (search_step row s)"
      using less.prems False by (rule search_inv_step)
    ultimately have "\<exists>s'. search_loop row (search_step row s) = Some s'"
      by (rule less.hyps)
    then show ?thesis using False by (subst search_loop.simps) simp
  qed
qed


lemma select_distractors_SomeD:
  assumes "select_distractors t distances = Some (Inr (r1, r2))"
  shows "t < length distances \<and>
    (\<exists>i j. r1 = Some i \<and> r2 = Some j \<and> nearest (distances ! t) i \<and>
       j < length (distances ! t) \<and> j \<noteq> i \<and> distances ! t ! i \<le> distances ! t ! j \<and>
       only_below (distances ! t) i (distances ! t ! j))"
proof -
  have t: "t < length distances"
    using assms by (auto simp: select_distractors_def split: if_splits)
  then obtain s where s: "search_loop (distances ! t) initial_state = Some s"
    and r: "r1 = id1 s" "r2 = id2 s"
    using assms by (auto simp: select_distractors_def)
  from search_loop_inv [OF s search_inv_initial]
  obtain i j where "phase_c (distances ! t) s i j"
    by (auto simp: search_inv_def phase_a_def phase_b_def)
  with t r show ?thesis by (auto simp: phase_c_def)
qed

lemma select_distractors_two_positive:
  assumes "select_distractors t distances = Some (Inr (r1, r2))"
  shows "two_positive (distances ! t)"
proof -
  from select_distractors_SomeD [OF assms] obtain i j where
    ij: "nearest (distances ! t) i" "j < length (distances ! t)" "j \<noteq> i"
    "distances ! t ! i \<le> distances ! t ! j"
    by blast
  then have "i < length (distances ! t)" "1 \<le> distances ! t ! i" "1 \<le> distances ! t ! j"
    by (auto simp: nearest_def)
  with ij(2,3) show ?thesis unfolding two_positive_def by blast
qed

lemma select_distractors_returns:
  assumes "t < length distances" "two_positive (distances ! t)"
  shows "\<exists>i j. select_distractors t distances = Some (Inr (Some i, Some j))"
proof -
  from search_loop_terminates [OF assms(2) search_inv_initial]
  obtain s where s: "search_loop (distances ! t) initial_state = Some s" by blast
  then have r: "select_distractors t distances = Some (Inr (id1 s, id2 s))"
    using assms(1) by (simp add: select_distractors_def)
  from select_distractors_SomeD [OF r] show ?thesis using r by auto
qed

lemma select_distractors_diverges:
  assumes "t < length distances" "\<not> two_positive (distances ! t)"
  shows "select_distractors t distances = None"
proof (rule ccontr)
  assume "select_distractors t distances \<noteq> None"
  then obtain s where s: "search_loop (distances ! t) initial_state = Some s"
    using assms(1) by (auto simp: select_distractors_def)
  then have "select_distractors t distances = Some (Inr (id1 s, id2 s))"
    using assms(1) by (simp add: select_distractors_def)
  from select_distractors_two_positive [OF this] assms(2) show False by blast
qed


section \<open>Reading and matching the player-2 pattern\<close>

lemma parse_from_append:
  "parse_from st (xs @ ys) =
     (case parse_from st xs of None \<Rightarrow> None | Some st' \<Rightarrow> parse_from st' ys)"
  by (induction xs arbitrary: st) (auto split: option.splits)

lemma parse_from_chain:
  "parse_from st xs = Some st' \<Longrightarrow> parse_from st (xs @ ys) = parse_from st' ys"
  by (simp add: parse_from_append)

lemma normal_step_plain:
  "\<not> special c \<Longrightarrow> normal_step f stack c = Some (Normal, add_item (Lit c) True f, stack)"
  by (auto simp: special_def normal_step_def)

lemma parse_from_plain:
  assumes "\<forall>c\<in>set w. \<not> special c"
  shows "parse_from (Normal, f, stack) w =
     Some (Normal, f\<lparr>items := rev (map Lit w) @ items f,
                      quantifiable := (w \<noteq> [] \<or> quantifiable f)\<rparr>, stack)"
  using assms
proof (induction w arbitrary: f)
  case Nil
  show ?case by simp
next
  case (Cons c w)
  then have "\<not> special c" and rest: "\<forall>c\<in>set w. \<not> special c" by simp_all
  then show ?case
    using Cons.IH [OF rest, of "add_item (Lit c) True f"]
    by (simp add: normal_step_plain add_item_def)
qed

lemma parse_from_space_group:
  "parse_from (Normal, f, stack) (CHR 0x5C # ''s*(?P<content>'') =
     Some (Normal, new_frame (Some ''content''),
           f\<lparr>items := Star Whitespace # items f, quantifiable := False\<rparr> # stack)"
  by (simp add: add_item_def quantify_def is_ident_char_def is_digit_def special_def normal_step_def)

lemma parse_from_bar:
  "parse_from (Normal, f, stack) (CHR ''|'' # cs) =
     parse_from (Normal, f\<lparr>branches := sequence (rev (items f)) # branches f, items := [],
                         quantifiable := False\<rparr>, stack) cs"
  by (simp add: normal_step_def)

lemma parse_from_tail:
  "parse_from (Normal, g, [f]) (CHR '')'' # CHR 0x0A # ''*(?P<remainder>.*)'') =
     Some (Normal,
           f\<lparr>items := Group (Some ''remainder'') (sequence [Star AnyChar]) # Star (Lit CHR 0x0A)
                  # Group (group_name g) (frame_regex g) # items f,
             quantifiable := True\<rparr>, [])"
  by (simp add: add_item_def quantify_def is_ident_char_def is_digit_def special_def frame_regex_def
      new_frame_def normal_step_def sequence_def)


lemma parse_p2_pattern:
  assumes tag: "\<forall>c\<in>set (p2_tag entry). \<not> special c"
    and names: "\<forall>c\<in>set n0. \<not> special c" "\<forall>c\<in>set n1. \<not> special c"
      "\<forall>c\<in>set n2. \<not> special c"
    and options: "p2_options entry = n0 @ CHR ''|'' # n1 @ CHR ''|'' # n2"
  shows "parse (p2_pattern entry) = Some (p2_regex (p2_tag entry) [n0, n1, n2])"
proof -
  let ?head = "CHR 0x5C # ''s*(?P<content>''"
  let ?tail = "CHR '')'' # CHR 0x0A # ''*(?P<remainder>.*)''"
  have split: "p2_pattern entry =
      ''^'' @ p2_tag entry @ ?head @ n0 @ CHR ''|'' # n1 @ CHR ''|'' # n2 @ ?tail"
    by (simp add: p2_pattern_def options)
  define f1 where "f1 = add_item Start False (new_frame None)"
  define f2 where "f2 = f1\<lparr>items := rev (map Lit (p2_tag entry)) @ items f1,
    quantifiable := (p2_tag entry \<noteq> [] \<or> quantifiable f1)\<rparr>"
  define f3 where "f3 = f2\<lparr>items := Star Whitespace # items f2, quantifiable := False\<rparr>"
  define g0 where "g0 = new_frame (Some ''content'')"
  define g1 where "g1 = g0\<lparr>items := rev (map Lit n0) @ items g0,
    quantifiable := (n0 \<noteq> [] \<or> quantifiable g0)\<rparr>"
  define g2 where "g2 = g1\<lparr>branches := sequence (rev (items g1)) # branches g1, items := [],
    quantifiable := False\<rparr>"
  define g3 where "g3 = g2\<lparr>items := rev (map Lit n1) @ items g2,
    quantifiable := (n1 \<noteq> [] \<or> quantifiable g2)\<rparr>"
  define g4 where "g4 = g3\<lparr>branches := sequence (rev (items g3)) # branches g3, items := [],
    quantifiable := False\<rparr>"
  define g5 where "g5 = g4\<lparr>items := rev (map Lit n2) @ items g4,
    quantifiable := (n2 \<noteq> [] \<or> quantifiable g4)\<rparr>"
  define f4 where "f4 = f3\<lparr>items := Group (Some ''remainder'') (sequence [Star AnyChar])
      # Star (Lit CHR 0x0A) # Group (group_name g5) (frame_regex g5) # items f3,
    quantifiable := True\<rparr>"
  have s1: "parse_from (Normal, new_frame None, []) ''^'' = Some (Normal, f1, [])"
    by (simp add: f1_def normal_step_def)
  have s2: "parse_from (Normal, f1, []) (p2_tag entry) = Some (Normal, f2, [])"
    unfolding f2_def using tag by (rule parse_from_plain)
  have s3: "parse_from (Normal, f2, []) ?head = Some (Normal, g0, [f3])"
    unfolding f3_def g0_def by (rule parse_from_space_group)
  have s4: "parse_from (Normal, g0, [f3]) n0 = Some (Normal, g1, [f3])"
    unfolding g1_def using names(1) by (rule parse_from_plain)
  have s5: "parse_from (Normal, g1, [f3]) (CHR ''|'' # cs) = parse_from (Normal, g2, [f3]) cs"
    for cs unfolding g2_def by (rule parse_from_bar)
  have s6: "parse_from (Normal, g2, [f3]) n1 = Some (Normal, g3, [f3])"
    unfolding g3_def using names(2) by (rule parse_from_plain)
  have s7: "parse_from (Normal, g3, [f3]) (CHR ''|'' # cs) = parse_from (Normal, g4, [f3]) cs"
    for cs unfolding g4_def by (rule parse_from_bar)
  have s8: "parse_from (Normal, g4, [f3]) n2 = Some (Normal, g5, [f3])"
    unfolding g5_def using names(3) by (rule parse_from_plain)
  have s9: "parse_from (Normal, g5, [f3]) ?tail = Some (Normal, f4, [])"
    unfolding f4_def by (rule parse_from_tail)
  have "parse_from (Normal, new_frame None, []) (p2_pattern entry) =
      parse_from (Normal, f1, [])
        (p2_tag entry @ ?head @ n0 @ CHR ''|'' # n1 @ CHR ''|'' # n2 @ ?tail)"
    unfolding split by (rule parse_from_chain [OF s1])
  also have "\<dots> = parse_from (Normal, f2, [])
      (?head @ n0 @ CHR ''|'' # n1 @ CHR ''|'' # n2 @ ?tail)"
    by (rule parse_from_chain [OF s2])
  also have "\<dots> = parse_from (Normal, g0, [f3]) (n0 @ CHR ''|'' # n1 @ CHR ''|'' # n2 @ ?tail)"
    by (rule parse_from_chain [OF s3])
  also have "\<dots> = parse_from (Normal, g1, [f3]) (CHR ''|'' # n1 @ CHR ''|'' # n2 @ ?tail)"
    by (rule parse_from_chain [OF s4])
  also have "\<dots> = parse_from (Normal, g2, [f3]) (n1 @ CHR ''|'' # n2 @ ?tail)"
    by (rule s5)
  also have "\<dots> = parse_from (Normal, g3, [f3]) (CHR ''|'' # n2 @ ?tail)"
    by (rule parse_from_chain [OF s6])
  also have "\<dots> = parse_from (Normal, g4, [f3]) (n2 @ ?tail)"
    by (rule s7)
  also have "\<dots> = parse_from (Normal, g5, [f3]) ?tail"
    by (rule parse_from_chain [OF s8])
  also have "\<dots> = Some (Normal, f4, [])"
    by (rule s9)
  finally have d: "parse_from (Normal, new_frame None, []) (p2_pattern entry) =
      Some (Normal, f4, [])" .
  have "frame_regex g5 = choice (map (\<lambda>n. sequence (map Lit n)) [n0, n1, n2])"
    by (simp add: frame_regex_def g5_def g4_def g3_def g2_def g1_def g0_def new_frame_def)
  moreover have "group_name g5 = Some ''content''"
    by (simp add: g5_def g4_def g3_def g2_def g1_def g0_def new_frame_def)
  ultimately have "frame_regex f4 = p2_regex (p2_tag entry) [n0, n1, n2]"
    by (simp add: frame_regex_def f4_def f3_def f2_def f1_def add_item_def new_frame_def
        p2_regex_def)
  with d show ?thesis by (simp add: parse_def)
qed

lemma matches_Seq:
  "matches whole (Seq r1 r2) p = concat (map (matches whole r2) (matches whole r1 p))"
  by simp

lemma sequence_simps [simp]:
  "sequence [] = Eps" "sequence (r # rs) = Seq r (sequence rs)"
  by (simp_all add: sequence_def)

lemma matches_literals:
  "matches whole (sequence (map Lit w @ rs)) (rest, caps) =
     (if prefix w rest then matches whole (sequence rs) (drop (length w) rest, caps) else [])"
proof (induction w arbitrary: rest)
  case Nil
  show ?case by simp
next
  case (Cons c w)
  show ?case
  proof (cases rest)
    case Nil
    then show ?thesis by simp
  next
    case (Cons x xs)
    then show ?thesis using Cons.IH [of xs] by simp
  qed
qed

lemma matches_word:
  "matches whole (sequence (map Lit w)) (rest, caps) =
     (if prefix w rest then [(drop (length w) rest, caps)] else [])"
  using matches_literals [of whole w "[]" rest caps] by simp

lemma skip_whitespace:
  assumes "\<And>x xs caps. is_space x \<Longrightarrow> K (x # xs, caps) = []"
  shows "concat (map K (matches whole (Star Whitespace) (rest, caps))) =
     K (dropWhile is_space rest, caps)"
proof (induction rest)
  case Nil
  show ?case by simp
next
  case (Cons x xs)
  show ?case
  proof (cases "is_space x")
    case True
    then show ?thesis using Cons.IH assms [OF True, of xs caps] by simp
  next
    case False
    then show ?thesis by simp
  qed
qed

lemma repeat_captures:
  assumes "\<And>p q. q \<in> set (m p) \<Longrightarrow> snd q = snd p"
  shows "q \<in> set (repeat m n p) \<Longrightarrow> snd q = snd p"
proof (induction n arbitrary: p q)
  case 0
  then show ?case by simp
next
  case (Suc n)
  from Suc.prems consider "q = p"
    | p' where "p' \<in> set (m p)" "q \<in> set (repeat m n p')"
    by (auto split: if_splits)
  then show ?case
  proof cases
    case 1
    then show ?thesis by simp
  next
    case 2
    from Suc.IH [OF 2(2)] assms [OF 2(1)] show ?thesis by simp
  qed
qed

lemma repeat_nonempty: "repeat m n p \<noteq> []"
  by (cases n) simp_all

lemma take_prefix: "prefix n rest \<Longrightarrow> take (length rest - (length rest - length n)) rest = n"
  by (auto simp: prefix_def)

lemma matches_content_group:
  "matches whole (Group (Some ''content'') (choice (map (\<lambda>n. sequence (map Lit n)) [n0, n1, n2])))
     (rest, caps) = candidates [n0, n1, n2] (rest, caps)"
  by (auto simp: matches_word candidates_def take_prefix)

lemma literal_captures: "q \<in> set (matches whole (Lit c) p) \<Longrightarrow> snd q = snd p"
  by (cases p) (auto split: list.splits if_splits)

lemma any_char_captures: "q \<in> set (matches whole AnyChar p) \<Longrightarrow> snd q = snd p"
  by (cases p) (auto split: list.splits if_splits)

lemma tail_nonempty: "matches whole tail_regex p \<noteq> []"
proof -
  obtain rest1 caps1 ps where p1: "matches whole (Star (Lit CHR 0x0A)) p = (rest1, caps1) # ps"
    using repeat_nonempty [of "matches whole (Lit CHR 0x0A)" "length (fst p)" p]
    by (cases "matches whole (Star (Lit CHR 0x0A)) p") auto
  obtain rest2 caps2 qs where
    q: "matches whole (Star AnyChar) (rest1, caps1) = (rest2, caps2) # qs"
    using repeat_nonempty [of "matches whole AnyChar" "length rest1" "(rest1, caps1)"]
    by (cases "matches whole (Star AnyChar) (rest1, caps1)") auto
  have "matches whole tail_regex p =
      concat (map (matches whole (Seq (Group (Some ''remainder'') (Seq (Star AnyChar) Eps)) Eps))
        (matches whole (Star (Lit CHR 0x0A)) p))"
    by (simp add: tail_regex_def)
  also have "\<dots> \<noteq> []"
    unfolding p1 using q by simp
  finally show ?thesis .
qed

lemma tail_keeps_content:
  assumes "q \<in> set (matches whole tail_regex p)"
  shows "snd q ''content'' = snd p ''content''"
proof -
  from assms obtain p1 where p1: "p1 \<in> set (matches whole (Star (Lit CHR 0x0A)) p)"
    and q1: "q \<in> set (matches whole (Group (Some ''remainder'') (Seq (Star AnyChar) Eps)) p1)"
    by (auto simp: tail_regex_def)
  have "p1 \<in> set (repeat (matches whole (Lit CHR 0x0A)) (length (fst p)) p)"
    using p1 by simp
  then have c1: "snd p1 = snd p"
    by (rule repeat_captures [rotated]) (rule literal_captures)
  obtain rest1 caps1 where p1': "p1 = (rest1, caps1)" by (cases p1)
  from q1 obtain p2 where p2: "p2 \<in> set (matches whole (Star AnyChar) (rest1, caps1))"
    and q2: "q = (fst p2, (snd p2)(''remainder'' \<mapsto> take (length rest1 - length (fst p2)) rest1))"
    unfolding p1' by (auto simp: case_prod_beta)
  have "p2 \<in> set (repeat (matches whole AnyChar) (length (fst (rest1, caps1))) (rest1, caps1))"
    using p2 by simp
  then have "snd p2 = snd (rest1, caps1)"
    by (rule repeat_captures [rotated]) (rule any_char_captures)
  then show ?thesis using c1 by (simp add: q2 p1')
qed

lemma no_candidate:
  "find (\<lambda>n. prefix n (fst p)) names = None \<Longrightarrow> candidates names p = []"
  by (induction names) (auto simp: candidates_def split: if_splits)

lemma first_candidate:
  assumes "find (\<lambda>n. prefix n (fst p)) names = Some n"
  shows "\<exists>q more. concat (map (matches whole tail_regex) (candidates names p)) = q # more \<and>
           snd q ''content'' = Some n"
  using assms
proof (induction names)
  case Nil
  then show ?case by simp
next
  case (Cons m names)
  show ?case
  proof (cases "prefix m (fst p)")
    case True
    with Cons.prems have mn: "m = n" by simp
    let ?c = "(drop (length n) (fst p), (snd p)(''content'' \<mapsto> n))"
    obtain q qs where q: "matches whole tail_regex ?c = q # qs"
      using tail_nonempty [of whole ?c] by (cases "matches whole tail_regex ?c") auto
    then have "q \<in> set (matches whole tail_regex ?c)" by simp
    from tail_keeps_content [OF this] have "snd q ''content'' = Some n" by simp
    moreover have "candidates (m # names) p = ?c # candidates names p"
      using True mn by (simp add: candidates_def)
    ultimately show ?thesis using q by simp
  next
    case False
    then have "candidates (m # names) p = candidates names p"
      by (simp add: candidates_def)
    moreover from False Cons.prems have "find (\<lambda>n. prefix n (fst p)) names = Some n" by simp
    ultimately show ?thesis using Cons.IH by simp
  qed
qed

lemma p2_regex_matches:
  assumes "\<forall>n\<in>set [n0, n1, n2]. n \<noteq> [] \<and> \<not> is_space (hd n)"
  shows "matches (tag @ token) (p2_regex tag [n0, n1, n2]) (tag @ token, Map.empty) =
     concat (map (matches (tag @ token) tail_regex)
       (candidates [n0, n1, n2] (dropWhile is_space token, Map.empty)))"
proof -
  let ?whole = "tag @ token"
  let ?G = "Group (Some ''content'') (choice (map (\<lambda>n. sequence (map Lit n)) [n0, n1, n2]))"
  define K where "K = (\<lambda>p. concat (map (matches ?whole tail_regex) (candidates [n0, n1, n2] p)))"
  have K: "matches ?whole (Seq ?G tail_regex) p = K p" for p
    by (cases p) (simp only: matches_Seq matches_content_group K_def)
  have blocked: "K (x # xs, caps) = []" if "is_space x" for x xs caps
  proof -
    have "\<not> prefix n (x # xs)" if "n \<in> set [n0, n1, n2]" for n
    proof
      assume "prefix n (x # xs)"
      moreover from assms that have "n \<noteq> []" "\<not> is_space (hd n)" by auto
      ultimately have "hd n = x" by (cases n) auto
      with \<open>\<not> is_space (hd n)\<close> \<open>is_space x\<close> show False by simp
    qed
    then have "candidates [n0, n1, n2] (x # xs, caps) = []"
      by (simp add: candidates_def)
    then show ?thesis by (simp add: K_def)
  qed
  have "p2_regex tag [n0, n1, n2] =
      Seq Start (sequence (map Lit tag @ [Star Whitespace, ?G, Star (Lit CHR 0x0A),
        Group (Some ''remainder'') (sequence [Star AnyChar])]))"
    by (simp add: p2_regex_def)
  then have "matches ?whole (p2_regex tag [n0, n1, n2]) (?whole, Map.empty) =
      matches ?whole (sequence [Star Whitespace, ?G, Star (Lit CHR 0x0A),
        Group (Some ''remainder'') (sequence [Star AnyChar])]) (token, Map.empty)"
    by (simp add: matches_literals del: sequence_simps)
  also have "\<dots> = concat (map (matches ?whole (Seq ?G tail_regex))
      (matches ?whole (Star Whitespace) (token, Map.empty)))"
    by (simp add: tail_regex_def)
  also have "\<dots> = concat (map K (matches ?whole (Star Whitespace) (token, Map.empty)))"
    using K by presburger
  also have "\<dots> = K (dropWhile is_space token, Map.empty)"
    using blocked by (rule skip_whitespace)
  finally show ?thesis by (simp add: K_def)
qed

lemma split_on_nonempty: "split_on c s \<noteq> []"
  by (induction s) (auto split: list.splits)

lemma split_on_join:
  "split_on c s = w # ws \<Longrightarrow> s = w @ concat (map (\<lambda>v. c # v) ws)"
proof (induction s arbitrary: w ws)
  case Nil
  then show ?case by simp
next
  case (Cons x xs)
  show ?case
  proof (cases "split_on c xs")
    case Nil
    then show ?thesis using split_on_nonempty [of c xs] by simp
  next
    case (Cons w' ws')
    from Cons.IH [OF this] have xs: "xs = w' @ concat (map (\<lambda>v. c # v) ws')" .
    show ?thesis
    proof (cases "x = c")
      case True
      with Cons.prems Cons have "w = []" "ws = w' # ws'" by simp_all
      with xs True show ?thesis by simp
    next
      case False
      with Cons.prems Cons have "w = x # w'" "ws = ws'" by simp_all
      with xs show ?thesis by simp
    qed
  qed
qed

lemma generate_regex_p2_pattern:
  "patterns lang = Some entry \<Longrightarrow>
   generate_regex patterns lang ''p2'' = Inr (Some (p2_pattern entry))"
  by (simp add: generate_regex_def p2_pattern_def)

lemma p2_match:
  assumes split: "split_on CHR ''|'' (p2_options entry) = [n0, n1, n2]"
    and tag: "\<forall>c\<in>set (p2_tag entry). \<not> special c"
    and names: "\<forall>n\<in>set [n0, n1, n2]. n \<noteq> [] \<and> \<not> is_space (hd n) \<and> (\<forall>c\<in>set n. \<not> special c)"
  shows "re_match (p2_pattern entry) (p2_tag entry @ token) =
     Inr (case concat (map (matches (p2_tag entry @ token) tail_regex)
                  (candidates [n0, n1, n2] (dropWhile is_space token, Map.empty))) of
            [] \<Rightarrow> None | (rest, caps) # _ \<Rightarrow> Some caps)"
proof -
  have options: "p2_options entry = n0 @ CHR ''|'' # n1 @ CHR ''|'' # n2"
    using split_on_join [OF split] by simp
  have "parse (p2_pattern entry) = Some (p2_regex (p2_tag entry) [n0, n1, n2])"
    using tag names by (intro parse_p2_pattern options) simp_all
  moreover have "matches (p2_tag entry @ token) (p2_regex (p2_tag entry) [n0, n1, n2])
      (p2_tag entry @ token, Map.empty) =
      concat (map (matches (p2_tag entry @ token) tail_regex)
        (candidates [n0, n1, n2] (dropWhile is_space token, Map.empty)))"
    using names by (intro p2_regex_matches) simp
  ultimately show ?thesis by (simp add: re_match_def)
qed

lemma p2_match_none:
  assumes "split_on CHR ''|'' (p2_options entry) = [n0, n1, n2]"
    and "\<forall>c\<in>set (p2_tag entry). \<not> special c"
    and "\<forall>n\<in>set [n0, n1, n2]. n \<noteq> [] \<and> \<not> is_space (hd n) \<and> (\<forall>c\<in>set n. \<not> special c)"
    and "find (\<lambda>n. prefix n (dropWhile is_space token)) [n0, n1, n2] = None"
  shows "re_match (p2_pattern entry) (p2_tag entry @ token) = Inr None"
proof -
  have "candidates [n0, n1, n2] (dropWhile is_space token, Map.empty) = []"
    using assms(4) by (intro no_candidate) simp
  then show ?thesis unfolding p2_match [OF assms(1-3)] by simp
qed

lemma p2_match_first:
  assumes "split_on CHR ''|'' (p2_options entry) = [n0, n1, n2]"
    and "\<forall>c\<in>set (p2_tag entry). \<not> special c"
    and "\<forall>n\<in>set [n0, n1, n2]. n \<noteq> [] \<and> \<not> is_space (hd n) \<and> (\<forall>c\<in>set n. \<not> special c)"
    and "find (\<lambda>n. prefix n (dropWhile is_space token)) [n0, n1, n2] = Some first"
  shows "\<exists>caps. re_match (p2_pattern entry) (p2_tag entry @ token) = Inr (Some caps) \<and>
           caps ''content'' = Some first"
proof -
  have "find (\<lambda>n. prefix n (fst (dropWhile is_space token, Map.empty :: captures))) [n0, n1, n2] =
      Some first"
    using assms(4) by simp
  from first_candidate [OF this, of "p2_tag entry @ token"] obtain q more where
    q: "concat (map (matches (p2_tag entry @ token) tail_regex)
          (candidates [n0, n1, n2] (dropWhile is_space token, Map.empty))) = q # more"
    and c: "snd q ''content'' = Some first"
    by blast
  show ?thesis unfolding p2_match [OF assms(1-3)] q using c by (cases q) simp
qed

lemma plain_examples:
  "\<forall>c\<in>set ''Answer:''. \<not> special c"
  "\<forall>name\<in>set [''first'', ''second'', ''third''].
     name \<noteq> [] \<and> \<not> is_space (hd name) \<and> (\<forall>c\<in>set name. \<not> special c)"
  "\<forall>name\<in>set [''a'', ''ab'', ''c''].
     name \<noteq> [] \<and> \<not> is_space (hd name) \<and> (\<forall>c\<in>set name. \<not> special c)"
  by (simp_all add: special_def is_space_def)


section \<open>Worked inputs\<close>

lemmas search_eval =
  select_distractors_def initial_state_def search_loop.simps search_step_def
  index_of_def index_from_def

lemma distances_with_duplicate:
  "get_distances [''00'', ''00'', ''01'', ''11''] =
     [[0, 0, 1, 2], [0, 0, 1, 2], [1, 1, 0, 1], [2, 2, 1, 0]]"
  by code_simp

lemma select_with_duplicate:
  "select_distractors 0 [[0, 0, 1, 2], [0, 0, 1, 2], [1, 1, 0, 1], [2, 2, 1, 0]] =
     Some (Inr (Some 2, Some 3))"
  by (simp add: search_eval)

lemma distances_three:
  "get_distances [''00'', ''01'', ''11''] = [[0, 1, 2], [1, 0, 1], [2, 1, 0]]"
  by code_simp

lemma select_three_middle:
  "select_distractors 1 [[0, 1, 2], [1, 0, 1], [2, 1, 0]] = Some (Inr (Some 0, Some 2))"
  by (simp add: search_eval)

lemma not_two_positive_001: "\<not> two_positive [0, 0, 1]"
  by (auto simp: two_positive_def less_Suc_eq nth_Cons')

lemma short_group_not_two_positive:
  assumes "t < length grids" "length grids < 3"
  shows "\<not> two_positive (get_distances grids ! t)"
proof
  assume "two_positive (get_distances grids ! t)"
  then obtain k1 k2 where k: "k1 < length grids" "k2 < length grids" "k1 \<noteq> k2"
    "1 \<le> get_distances grids ! t ! k1" "1 \<le> get_distances grids ! t ! k2"
    using assms(1) by (auto simp: two_positive_def get_distances_row_length)
  have "k1 \<noteq> t" using k(4) assms(1) by (auto simp: get_distances_nth)
  moreover have "k2 \<noteq> t" using k(5) assms(1) by (auto simp: get_distances_nth)
  ultimately show False using k(1,2,3) assms by linarith
qed

section \<open>The distance matrix\<close>

text \<open>
  C6. For every list of grids the matrix of \<open>get_distances\<close> is square, has 0 on the
  diagonal, is symmetric, and holds off the diagonal the Levenshtein distance of the two
  grids, which is the least number of single-character insertions, deletions and
  substitutions that turn one grid into the other.
\<close>

theorem get_distances_matrix:
  "length (get_distances grids) = length grids \<and>
   (\<forall>i<length grids.
      length (get_distances grids ! i) = length grids \<and>
      get_distances grids ! i ! i = 0 \<and>
      (\<forall>j<length grids.
         get_distances grids ! i ! j = get_distances grids ! j ! i \<and>
         (i \<noteq> j \<longrightarrow>
            get_distances grids ! i ! j = int (levenshtein (grids ! i) (grids ! j)) \<and>
            levenshtein (grids ! i) (grids ! j) =
              (LEAST n. edit_script (grids ! i) (grids ! j) n))))"
proof (intro conjI allI impI)
  show "length (get_distances grids) = length grids" by (rule length_get_distances)
next
  fix i assume "i < length grids"
  then show "length (get_distances grids ! i) = length grids"
    by (rule get_distances_row_length)
next
  fix i assume "i < length grids"
  then show "get_distances grids ! i ! i = 0" by (simp add: get_distances_nth)
next
  fix i j assume "i < length grids" "j < length grids"
  then show "get_distances grids ! i ! j = get_distances grids ! j ! i"
    by (simp add: get_distances_nth levenshtein_commute)
next
  fix i j assume "i < length grids" "j < length grids" "i \<noteq> j"
  then show "get_distances grids ! i ! j = int (levenshtein (grids ! i) (grids ! j))"
    by (simp add: get_distances_nth)
next
  fix i j
  show "levenshtein (grids ! i) (grids ! j) = (LEAST n. edit_script (grids ! i) (grids ! j) n)"
    by (rule levenshtein_Least)
qed

theorem get_distances_matrix_witness:
  "length (get_distances [''00'', ''01'', ''11'']) = 3 \<and>
   get_distances [''00'', ''01'', ''11''] ! 2 ! 2 = 0 \<and>
   get_distances [''00'', ''01'', ''11''] ! 0 ! 2 = get_distances [''00'', ''01'', ''11''] ! 2 ! 0 \<and>
   get_distances [''00'', ''01'', ''11''] ! 0 ! 2 = int (levenshtein ''00'' ''11'') \<and>
   levenshtein ''00'' ''11'' = 2"
proof -
  let ?g = "[''00'', ''01'', ''11'']"
  have m: "length (get_distances ?g) = length ?g \<and>
    (\<forall>i<length ?g. length (get_distances ?g ! i) = length ?g \<and> get_distances ?g ! i ! i = 0 \<and>
      (\<forall>j<length ?g. get_distances ?g ! i ! j = get_distances ?g ! j ! i \<and>
         (i \<noteq> j \<longrightarrow> get_distances ?g ! i ! j = int (levenshtein (?g ! i) (?g ! j)) \<and>
            levenshtein (?g ! i) (?g ! j) = (LEAST n. edit_script (?g ! i) (?g ! j) n))))"
    by (rule get_distances_matrix)
  have len: "length (get_distances ?g) = 3" using m by simp
  have l2: "(2::nat) < length ?g" and l0: "(0::nat) < length ?g" by simp_all
  from m l2 have d: "get_distances ?g ! 2 ! 2 = 0" by blast
  from m l0 l2 have s: "get_distances ?g ! 0 ! 2 = get_distances ?g ! 2 ! 0" by blast
  from m l0 l2 have "get_distances ?g ! 0 ! 2 = int (levenshtein (?g ! 0) (?g ! 2))" by force
  then have e: "get_distances ?g ! 0 ! 2 = int (levenshtein ''00'' ''11'')" by simp
  have v: "levenshtein ''00'' ''11'' = 2" by simp
  from len d s e v show ?thesis by blast
qed

section \<open>The distractor search\<close>

text \<open>
  C7. The scenario of the specification: for the grids \<open>00\<close>, \<open>01\<close>, \<open>11\<close> the row of
  target 0 is \<open>[0, 1, 2]\<close> and the selector returns \<open>(1, 2)\<close>. The first pass of the loop
  makes index 1, at distance 1, \<open>id1\<close>; no later index is at distance 1, so the second
  pass raises the threshold to 2; the third pass makes index 2 \<open>id2\<close>.
\<close>

theorem scenario_00_01_11:
  "get_distances [''00'', ''01'', ''11''] = [[0, 1, 2], [1, 0, 1], [2, 1, 0]] \<and>
   get_distances [''00'', ''01'', ''11''] ! 0 = [0, 1, 2] \<and>
   select_distractors 0 (get_distances [''00'', ''01'', ''11'']) = Some (Inr (Some 1, Some 2)) \<and>
   search_step [0, 1, 2] initial_state = initial_state\<lparr>id1 := Some 1, found1 := True\<rparr> \<and>
   1 \<notin> set (drop 2 [0, 1, 2 :: int]) \<and>
   search_step [0, 1, 2] (initial_state\<lparr>id1 := Some 1, found1 := True\<rparr>) =
     initial_state\<lparr>id1 := Some 1, found1 := True, min_distance := 2\<rparr> \<and>
   search_step [0, 1, 2] (initial_state\<lparr>id1 := Some 1, found1 := True, min_distance := 2\<rparr>) =
     \<lparr>id1 = Some 1, id2 = Some 2, min_distance = 2, found1 = True, found2 = True\<rparr>"
proof -
  have d: "get_distances [''00'', ''01'', ''11''] = [[0, 1, 2], [1, 0, 1], [2, 1, 0]]"
    by code_simp
  have s: "select_distractors 0 [[0, 1, 2], [1, 0, 1], [2, 1, 0]] = Some (Inr (Some 1, Some 2))"
    by (simp add: search_eval)
  have t1: "search_step [0, 1, 2] initial_state = initial_state\<lparr>id1 := Some 1, found1 := True\<rparr>"
    by (simp add: search_step_def initial_state_def index_of_def)
  have t2: "search_step [0, 1, 2] (initial_state\<lparr>id1 := Some 1, found1 := True\<rparr>) =
     initial_state\<lparr>id1 := Some 1, found1 := True, min_distance := 2\<rparr>"
    by (simp add: search_step_def initial_state_def index_of_def)
  have t3: "search_step [0, 1, 2]
       (initial_state\<lparr>id1 := Some 1, found1 := True, min_distance := 2\<rparr>) =
     \<lparr>id1 = Some 1, id2 = Some 2, min_distance = 2, found1 = True, found2 = True\<rparr>"
    by (simp add: search_step_def initial_state_def index_of_def)
  have n: "1 \<notin> set (drop 2 [0, 1, 2 :: int])" by simp
  from d s t1 t2 t3 n show ?thesis by simp
qed

text \<open>
  C10. Whenever \<open>select_distractors\<close> returns, it returns two indices of the target's
  row, and the distance at both is at least 1: the threshold starts at 1 and only grows,
  so an index at distance 0 is never selected.
\<close>

theorem distractors_have_positive_distance:
  assumes "select_distractors t distances = Some (Inr (r1, r2))"
  shows "\<exists>i j. r1 = Some i \<and> r2 = Some j \<and>
           i < length (distances ! t) \<and> j < length (distances ! t) \<and>
           1 \<le> distances ! t ! i \<and> 1 \<le> distances ! t ! j"
proof -
  from select_distractors_SomeD [OF assms] obtain i j where
    ij: "r1 = Some i" "r2 = Some j" "nearest (distances ! t) i" "j < length (distances ! t)"
    "distances ! t ! i \<le> distances ! t ! j"
    by blast
  from ij(3) have "i < length (distances ! t)" "1 \<le> distances ! t ! i"
    by (simp_all add: nearest_def)
  with ij show ?thesis by auto
qed

theorem distractors_have_positive_distance_witness:
  "select_distractors 0 (get_distances [''00'', ''00'', ''01'', ''11'']) =
     Some (Inr (Some 2, Some 3)) \<and>
   get_distances [''00'', ''00'', ''01'', ''11''] ! 0 ! 1 = 0 \<and>
   1 \<le> get_distances [''00'', ''00'', ''01'', ''11''] ! 0 ! 2 \<and>
   1 \<le> get_distances [''00'', ''00'', ''01'', ''11''] ! 0 ! 3"
proof -
  let ?d = "get_distances [''00'', ''00'', ''01'', ''11'']"
  have r: "select_distractors 0 ?d = Some (Inr (Some 2, Some 3))"
    by (simp only: distances_with_duplicate select_with_duplicate)
  from distractors_have_positive_distance [OF r]
  have "1 \<le> ?d ! 0 ! 2 \<and> 1 \<le> ?d ! 0 ! 3" by simp
  moreover have "?d ! 0 ! 1 = 0" by (simp add: distances_with_duplicate)
  ultimately show ?thesis using r by simp
qed

text \<open>
  C3. On a distance matrix, whose diagonal is 0, the two indices that
  \<open>select_distractors\<close> returns differ from the target and from each other.
\<close>

theorem select_distractors_distinct:
  assumes "select_distractors t distances = Some (Inr (r1, r2))"
    and "distances ! t ! t = 0"
  shows "\<exists>i j. r1 = Some i \<and> r2 = Some j \<and> i \<noteq> t \<and> j \<noteq> t \<and> i \<noteq> j"
proof -
  from select_distractors_SomeD [OF assms(1)] obtain i j where
    ij: "r1 = Some i" "r2 = Some j" "nearest (distances ! t) i" "j \<noteq> i"
    "distances ! t ! i \<le> distances ! t ! j"
    by blast
  from ij(3) have "1 \<le> distances ! t ! i" by (simp add: nearest_def)
  with ij(5) assms(2) have "i \<noteq> t" "j \<noteq> t" by auto
  with ij show ?thesis by auto
qed

theorem select_distractors_distinct_witness:
  "select_distractors 1 (get_distances [''00'', ''01'', ''11'']) = Some (Inr (Some 0, Some 2)) \<and>
   get_distances [''00'', ''01'', ''11''] ! 1 ! 1 = 0 \<and>
   (0::nat) \<noteq> 1 \<and> (2::nat) \<noteq> 1 \<and> (0::nat) \<noteq> 2"
proof -
  let ?d = "get_distances [''00'', ''01'', ''11'']"
  have r: "select_distractors 1 ?d = Some (Inr (Some 0, Some 2))"
    by (simp only: distances_three select_three_middle)
  have z: "?d ! 1 ! 1 = 0" by (simp add: distances_three)
  from select_distractors_distinct [OF r z] r z show ?thesis by simp
qed

text \<open>
  C4. For a target inside the matrix the search returns exactly when the target's row
  has two different indices at distance 1 or more; otherwise the loop never ends. In
  particular it never ends on the matrix of a group of fewer than 3 grids.
\<close>

theorem select_distractors_termination:
  "(t < length distances \<longrightarrow>
      ((\<exists>k1<length (distances ! t). \<exists>k2<length (distances ! t).
           k1 \<noteq> k2 \<and> 1 \<le> distances ! t ! k1 \<and> 1 \<le> distances ! t ! k2) \<longrightarrow>
         (\<exists>i j. select_distractors t distances = Some (Inr (Some i, Some j)))) \<and>
      (\<not> (\<exists>k1<length (distances ! t). \<exists>k2<length (distances ! t).
           k1 \<noteq> k2 \<and> 1 \<le> distances ! t ! k1 \<and> 1 \<le> distances ! t ! k2) \<longrightarrow>
         select_distractors t distances = None)) \<and>
   (u < length grids \<and> length grids < 3 \<longrightarrow>
      select_distractors u (get_distances grids) = None)"
proof (intro conjI impI)
  assume "t < length distances"
    and "\<exists>k1<length (distances ! t). \<exists>k2<length (distances ! t).
           k1 \<noteq> k2 \<and> 1 \<le> distances ! t ! k1 \<and> 1 \<le> distances ! t ! k2"
  then show "\<exists>i j. select_distractors t distances = Some (Inr (Some i, Some j))"
    by (intro select_distractors_returns) (simp_all add: two_positive_def)
next
  assume "t < length distances"
    and "\<not> (\<exists>k1<length (distances ! t). \<exists>k2<length (distances ! t).
           k1 \<noteq> k2 \<and> 1 \<le> distances ! t ! k1 \<and> 1 \<le> distances ! t ! k2)"
  then show "select_distractors t distances = None"
    by (intro select_distractors_diverges) (simp_all add: two_positive_def)
next
  assume u: "u < length grids \<and> length grids < 3"
  then have "\<not> two_positive (get_distances grids ! u)"
    by (intro short_group_not_two_positive) simp_all
  moreover have "u < length (get_distances grids)" using u by (simp add: length_get_distances)
  ultimately show "select_distractors u (get_distances grids) = None"
    by (intro select_distractors_diverges)
qed

theorem select_distractors_termination_witness:
  "(\<exists>i j. select_distractors 0 [[0, 1, 2], [1, 0, 1], [2, 1, 0]] = Some (Inr (Some i, Some j))) \<and>
   select_distractors 0 [[0, 0, 1], [0, 0, 1], [1, 1, 0]] = None \<and>
   select_distractors 1 (get_distances [''00'', ''01'']) = None"
proof -
  let ?a = "[[0, 1, 2], [1, 0, 1], [2, 1, 0 :: int]]"
  let ?b = "[[0, 0, 1], [0, 0, 1], [1, 1, 0 :: int]]"
  let ?g = "[''00'', ''01'']"
  have a: "\<exists>k1<length (?a ! 0). \<exists>k2<length (?a ! 0). k1 \<noteq> k2 \<and> 1 \<le> ?a ! 0 ! k1 \<and> 1 \<le> ?a ! 0 ! k2"
    by (intro exI [of _ 1] exI [of _ 2] conjI) simp_all
  have b: "\<not> (\<exists>k1<length (?b ! 0). \<exists>k2<length (?b ! 0). k1 \<noteq> k2 \<and> 1 \<le> ?b ! 0 ! k1 \<and> 1 \<le> ?b ! 0 ! k2)"
    using not_two_positive_001 by (simp add: two_positive_def)
  have "\<exists>i j. select_distractors 0 ?a = Some (Inr (Some i, Some j))"
    using select_distractors_termination [of 0 ?a 1 ?g] a by simp
  moreover have "select_distractors 0 ?b = None"
    using select_distractors_termination [of 0 ?b 1 ?g] b by simp
  moreover have "select_distractors 1 (get_distances ?g) = None"
    using select_distractors_termination [of 0 ?a 1 ?g] by simp
  ultimately show ?thesis by blast
qed

text \<open>
  C1, as amended. When the target's row has two different indices at distance 1 or more,
  \<open>select_distractors\<close> returns a pair \<open>(i, j)\<close> of different indices with
  \<open>row[i] \<le> row[j]\<close>; \<open>i\<close> is the lowest index that attains the smallest distance of at
  least 1 in the row; and no index outside \<open>{t, i, j}\<close> whose distance is at least 1 is
  nearer to the target than \<open>j\<close>.
\<close>

theorem select_distractors_nearest:
  assumes "t < length distances"
    and "k1 < length (distances ! t)" "k2 < length (distances ! t)" "k1 \<noteq> k2"
    and "1 \<le> distances ! t ! k1" "1 \<le> distances ! t ! k2"
  shows "\<exists>i j. select_distractors t distances = Some (Inr (Some i, Some j)) \<and>
           i < length (distances ! t) \<and> j < length (distances ! t) \<and> i \<noteq> j \<and>
           distances ! t ! i \<le> distances ! t ! j \<and>
           1 \<le> distances ! t ! i \<and>
           (\<forall>k<length (distances ! t). 1 \<le> distances ! t ! k \<longrightarrow>
              distances ! t ! i \<le> distances ! t ! k) \<and>
           (\<forall>k<i. distances ! t ! k \<noteq> distances ! t ! i) \<and>
           (\<forall>k<length (distances ! t). k \<notin> {t, i, j} \<longrightarrow> 1 \<le> distances ! t ! k \<longrightarrow>
              \<not> distances ! t ! k < distances ! t ! j)"
proof -
  have "two_positive (distances ! t)"
    using assms(2-6) unfolding two_positive_def by blast
  from select_distractors_returns [OF assms(1) this] obtain i j where
    r: "select_distractors t distances = Some (Inr (Some i, Some j))" by blast
  from select_distractors_SomeD [OF r] have
    p: "nearest (distances ! t) i" "j < length (distances ! t)" "j \<noteq> i"
    "distances ! t ! i \<le> distances ! t ! j" "only_below (distances ! t) i (distances ! t ! j)"
    by auto
  have n: "i < length (distances ! t)" "1 \<le> distances ! t ! i"
    "\<forall>k<length (distances ! t). 1 \<le> distances ! t ! k \<longrightarrow>
        distances ! t ! i \<le> distances ! t ! k"
    "\<forall>k<i. distances ! t ! k \<noteq> distances ! t ! i"
    using p(1) by (simp_all add: nearest_def)
  have o: "\<forall>k<length (distances ! t). k \<notin> {t, i, j} \<longrightarrow> 1 \<le> distances ! t ! k \<longrightarrow>
          \<not> distances ! t ! k < distances ! t ! j"
  proof (intro allI impI)
    fix k assume "k < length (distances ! t)" "k \<notin> {t, i, j}" "1 \<le> distances ! t ! k"
    then show "\<not> distances ! t ! k < distances ! t ! j"
      using p(5) by (auto simp: only_below_def)
  qed
  have ij: "i \<noteq> j" using p(3) by simp
  show ?thesis
    by (intro exI [of _ i] exI [of _ j] conjI) (fact r n p(2) ij p(4) o)+
qed

theorem select_distractors_nearest_witness:
  "select_distractors 0 [[0, 0, 1, 2], [0, 0, 1, 2], [1, 1, 0, 1], [2, 2, 1, 0]] =
     Some (Inr (Some 2, Some 3)) \<and>
   [[0, 0, 1, 2], [0, 0, 1, 2], [1, 1, 0, 1], [2, 2, 1, 0 :: int]] ! 0 ! 2 \<le>
     [[0, 0, 1, 2], [0, 0, 1, 2], [1, 1, 0, 1], [2, 2, 1, 0]] ! 0 ! 3"
proof -
  let ?d = "[[0, 0, 1, 2], [0, 0, 1, 2], [1, 1, 0, 1], [2, 2, 1, 0 :: int]]"
  have h: "0 < length ?d" "2 < length (?d ! 0)" "3 < length (?d ! 0)" "(2::nat) \<noteq> 3"
    "1 \<le> ?d ! 0 ! 2" "1 \<le> ?d ! 0 ! 3"
    by simp_all
  from select_distractors_nearest [OF h] obtain i j where
    r: "select_distractors 0 ?d = Some (Inr (Some i, Some j))"
    and le: "?d ! 0 ! i \<le> ?d ! 0 ! j"
    by (elim exE conjE)
  from r have "i = 2" "j = 3" by (simp_all add: select_with_duplicate)
  with r le show ?thesis by simp
qed

theorem select_distractors_nearest_counterexample:
  "select_distractors 0 (get_distances [''00'', ''00'', ''01'', ''11'']) =
     Some (Inr (Some 2, Some 3)) \<and>
   (1::nat) \<notin> {0, 2, 3} \<and>
   get_distances [''00'', ''00'', ''01'', ''11''] ! 0 ! 1 <
     get_distances [''00'', ''00'', ''01'', ''11''] ! 0 ! 3 \<and>
   length [''00'', ''00'', ''01''] = 3 \<and>
   select_distractors 0 (get_distances [''00'', ''00'', ''01'']) = None"
proof -
  have "get_distances [''00'', ''00'', ''01''] = [[0, 0, 1], [0, 0, 1], [1, 1, 0]]"
    by code_simp
  then have "select_distractors 0 (get_distances [''00'', ''00'', ''01'']) = None"
    using not_two_positive_001 by (intro select_distractors_diverges) simp_all
  then show ?thesis
    by (simp add: distances_with_duplicate select_with_duplicate)
qed


section \<open>The positional instances\<close>

lemma generate_regex_p1:
  "patterns lang = Some entry \<Longrightarrow> \<exists>r. generate_regex patterns lang ''p1'' = Inr (Some r)"
  by (simp add: generate_regex_def)

lemma generate_regex_p2:
  "patterns lang = Some entry \<Longrightarrow> \<exists>r. generate_regex patterns lang ''p2'' = Inr (Some r)"
  by (simp add: generate_regex_def)

text \<open>
  What one pass of the loop writes, when the language is in the table and its
  \<open>p2_options\<close> splits into three pieces: the player-1 fields hold the sample as it was
  unpacked, the player-2 fields and the slot name hold the variables after the
  \<open>if\<close>/\<open>elif\<close> statement.
\<close>

lemma on_generate_instance_Inr:
  assumes "patterns lang = Some entry"
    and "length (split_on CHR ''|'' (p2_options entry)) = 3"
  shows "\<exists>g. on_generate_instance patterns lang header_a header_b (target, second, third) i
              game_counter = Inr g \<and>
           g ''player_1_target_grid'' = Some (PyStr target) \<and>
           g ''player_1_second_grid'' = Some (PyStr second) \<and>
           g ''player_1_third_grid'' = Some (PyStr third) \<and>
           g ''player_2_first_grid'' = Some (PyStr (first_grid
              (assign_slots i (split_on CHR ''|'' (p2_options entry))
                 \<lparr>target_grid = target, second_grid = second, third_grid = third,
                  first_grid = [], target_grid_name = []\<rparr>))) \<and>
           g ''player_2_second_grid'' = Some (PyStr (second_grid
              (assign_slots i (split_on CHR ''|'' (p2_options entry))
                 \<lparr>target_grid = target, second_grid = second, third_grid = third,
                  first_grid = [], target_grid_name = []\<rparr>))) \<and>
           g ''player_2_third_grid'' = Some (PyStr (third_grid
              (assign_slots i (split_on CHR ''|'' (p2_options entry))
                 \<lparr>target_grid = target, second_grid = second, third_grid = third,
                  first_grid = [], target_grid_name = []\<rparr>))) \<and>
           g ''target_grid_name'' = Some (PyStr (target_grid_name
              (assign_slots i (split_on CHR ''|'' (p2_options entry))
                 \<lparr>target_grid = target, second_grid = second, third_grid = third,
                  first_grid = [], target_grid_name = []\<rparr>)))"
proof -
  from generate_regex_p1 [of patterns lang entry] assms(1) obtain r1 where
    r1: "generate_regex patterns lang ''p1'' = Inr (Some r1)" by blast
  from generate_regex_p2 [of patterns lang entry] assms(1) obtain r2 where
    r2: "generate_regex patterns lang ''p2'' = Inr (Some r2)" by blast
  show ?thesis
    using assms r1 r2 by (simp add: on_generate_instance_def Let_def)
qed

lemma on_generate_instance_assertion:
  assumes "patterns lang = Some entry"
    and "length (split_on CHR ''|'' (p2_options entry)) \<noteq> 3"
  shows "on_generate_instance patterns lang header_a header_b sample i game_counter =
           Inl AssertionError"
  using assms by (cases sample) (simp add: on_generate_instance_def Let_def)

lemma english_en:
  "english ''en'' =
     Some \<lparr>p1_tag = ''Expression:'', p2_tag = ''Answer:'', p2_options = ''first|second|third''\<rparr>"
  by (simp add: english_def)

lemma english_options:
  "split_on CHR ''|''
     (p2_options \<lparr>p1_tag = ''Expression:'', p2_tag = ''Answer:'',
                  p2_options = ''first|second|third''\<rparr>) =
   [''first'', ''second'', ''third'']"
  by simp

text \<open>
  C2. With the language in the table and \<open>p2_options\<close> splitting into the three names
  \<open>name0\<close>, \<open>name1\<close>, \<open>name2\<close>, the instance of slot 1 gives player 2 the grids
  (target, second, third) and the name \<open>name0\<close>; slot 2 gives (second, target, third) and
  \<open>name1\<close>; slot 3 gives (third, second, target) and \<open>name2\<close>.
\<close>

theorem player_2_slot_assignment:
  assumes "patterns lang = Some entry"
    and "split_on CHR ''|'' (p2_options entry) = [name0, name1, name2]"
  shows "\<exists>g1 g2 g3.
     on_generate_instance patterns lang header_a header_b (target, second, third) 1 c1 = Inr g1 \<and>
     g1 ''player_2_first_grid'' = Some (PyStr target) \<and>
     g1 ''player_2_second_grid'' = Some (PyStr second) \<and>
     g1 ''player_2_third_grid'' = Some (PyStr third) \<and>
     g1 ''target_grid_name'' = Some (PyStr name0) \<and>
     on_generate_instance patterns lang header_a header_b (target, second, third) 2 c2 = Inr g2 \<and>
     g2 ''player_2_first_grid'' = Some (PyStr second) \<and>
     g2 ''player_2_second_grid'' = Some (PyStr target) \<and>
     g2 ''player_2_third_grid'' = Some (PyStr third) \<and>
     g2 ''target_grid_name'' = Some (PyStr name1) \<and>
     on_generate_instance patterns lang header_a header_b (target, second, third) 3 c3 = Inr g3 \<and>
     g3 ''player_2_first_grid'' = Some (PyStr third) \<and>
     g3 ''player_2_second_grid'' = Some (PyStr second) \<and>
     g3 ''player_2_third_grid'' = Some (PyStr target) \<and>
     g3 ''target_grid_name'' = Some (PyStr name2)"
proof -
  have three: "length (split_on CHR ''|'' (p2_options entry)) = 3"
    using assms(2) by simp
  note inst = on_generate_instance_Inr
    [of patterns lang entry header_a header_b target second third, OF assms(1) three]
  from inst [of 1 c1] obtain g1 where g1:
    "on_generate_instance patterns lang header_a header_b (target, second, third) 1 c1 = Inr g1"
    "g1 ''player_2_first_grid'' = Some (PyStr target)"
    "g1 ''player_2_second_grid'' = Some (PyStr second)"
    "g1 ''player_2_third_grid'' = Some (PyStr third)"
    "g1 ''target_grid_name'' = Some (PyStr name0)"
    unfolding assms(2) by (auto simp: assign_slots_def Let_def)
  from inst [of 2 c2] obtain g2 where g2:
    "on_generate_instance patterns lang header_a header_b (target, second, third) 2 c2 = Inr g2"
    "g2 ''player_2_first_grid'' = Some (PyStr second)"
    "g2 ''player_2_second_grid'' = Some (PyStr target)"
    "g2 ''player_2_third_grid'' = Some (PyStr third)"
    "g2 ''target_grid_name'' = Some (PyStr name1)"
    unfolding assms(2) by (auto simp: assign_slots_def Let_def)
  from inst [of 3 c3] obtain g3 where g3:
    "on_generate_instance patterns lang header_a header_b (target, second, third) 3 c3 = Inr g3"
    "g3 ''player_2_first_grid'' = Some (PyStr third)"
    "g3 ''player_2_second_grid'' = Some (PyStr second)"
    "g3 ''player_2_third_grid'' = Some (PyStr target)"
    "g3 ''target_grid_name'' = Some (PyStr name2)"
    unfolding assms(2) by (auto simp: assign_slots_def Let_def)
  show ?thesis
    by (rule exI [of _ g1], rule exI [of _ g2], rule exI [of _ g3], intro conjI) (fact g1 g2 g3)+
qed

theorem player_2_slot_assignment_witness:
  "\<exists>g. on_generate_instance english ''en'' ''TARGET_GRID'' ''FIRST_GRID''
          (''X'', ''Y'', ''Z'') 2 1 = Inr g \<and>
        g ''player_2_first_grid'' = Some (PyStr ''Y'') \<and>
        g ''player_2_second_grid'' = Some (PyStr ''X'') \<and>
        g ''player_2_third_grid'' = Some (PyStr ''Z'') \<and>
        g ''target_grid_name'' = Some (PyStr ''second'')"
proof -
  from player_2_slot_assignment
    [of english "''en''" _ "''first''" "''second''" "''third''"
        "''TARGET_GRID''" "''FIRST_GRID''" "''X''" "''Y''" "''Z''" 0 1 2,
      OF english_en english_options]
  obtain g2 where
    "on_generate_instance english ''en'' ''TARGET_GRID'' ''FIRST_GRID''
       (''X'', ''Y'', ''Z'') 2 1 = Inr g2"
    "g2 ''player_2_first_grid'' = Some (PyStr ''Y'')"
    "g2 ''player_2_second_grid'' = Some (PyStr ''X'')"
    "g2 ''player_2_third_grid'' = Some (PyStr ''Z'')"
    "g2 ''target_grid_name'' = Some (PyStr ''second'')"
    by (elim exE conjE)
  then show ?thesis by (intro exI [of _ g2] conjI)
qed

text \<open>
  C9. With the language in the table and \<open>p2_options\<close> splitting into three pieces, the
  loop over the slots 1, 2, 3 appends three instances for a sample, and in each of them
  the three player-1 grid fields hold the sample's target, second and third grid.
\<close>

theorem player_1_fields_unchanged:
  assumes "patterns lang = Some entry"
    and "length (split_on CHR ''|'' (p2_options entry)) = 3"
  shows "\<exists>g1 g2 g3.
     slot_loop patterns lang header_a header_b (target, second, third) [1, 2, 3]
       game_counter instances = Inr (instances @ [g1, g2, g3], game_counter + 3) \<and>
     g1 ''player_1_target_grid'' = Some (PyStr target) \<and>
     g1 ''player_1_second_grid'' = Some (PyStr second) \<and>
     g1 ''player_1_third_grid'' = Some (PyStr third) \<and>
     g2 ''player_1_target_grid'' = Some (PyStr target) \<and>
     g2 ''player_1_second_grid'' = Some (PyStr second) \<and>
     g2 ''player_1_third_grid'' = Some (PyStr third) \<and>
     g3 ''player_1_target_grid'' = Some (PyStr target) \<and>
     g3 ''player_1_second_grid'' = Some (PyStr second) \<and>
     g3 ''player_1_third_grid'' = Some (PyStr third)"
proof -
  note inst = on_generate_instance_Inr
    [of patterns lang entry header_a header_b target second third, OF assms]
  from inst [of 1 game_counter] obtain g1 where g1:
    "on_generate_instance patterns lang header_a header_b (target, second, third) 1
       game_counter = Inr g1"
    "g1 ''player_1_target_grid'' = Some (PyStr target)"
    "g1 ''player_1_second_grid'' = Some (PyStr second)"
    "g1 ''player_1_third_grid'' = Some (PyStr third)"
    by (elim exE conjE)
  from inst [of 2 "game_counter + 1"] obtain g2 where g2:
    "on_generate_instance patterns lang header_a header_b (target, second, third) 2
       (game_counter + 1) = Inr g2"
    "g2 ''player_1_target_grid'' = Some (PyStr target)"
    "g2 ''player_1_second_grid'' = Some (PyStr second)"
    "g2 ''player_1_third_grid'' = Some (PyStr third)"
    by (elim exE conjE)
  from inst [of 3 "game_counter + 1 + 1"] obtain g3 where g3:
    "on_generate_instance patterns lang header_a header_b (target, second, third) 3
       (game_counter + 1 + 1) = Inr g3"
    "g3 ''player_1_target_grid'' = Some (PyStr target)"
    "g3 ''player_1_second_grid'' = Some (PyStr second)"
    "g3 ''player_1_third_grid'' = Some (PyStr third)"
    by (elim exE conjE)
  have all: "slot_loop patterns lang header_a header_b (target, second, third) [1, 2, 3]
       game_counter instances = Inr (instances @ [g1, g2, g3], game_counter + 3)"
    using g1(1) g2(1) g3(1) by simp
  show ?thesis
    by (rule exI [of _ g1], rule exI [of _ g2], rule exI [of _ g3], intro conjI)
      (fact all g1 g2 g3)+
qed

theorem player_1_fields_unchanged_witness:
  "\<exists>g1 g2 g3.
     slot_loop english ''en'' ''TARGET_GRID'' ''FIRST_GRID'' (''X'', ''Y'', ''Z'') [1, 2, 3] 0 [] =
       Inr ([g1, g2, g3], 3) \<and>
     g2 ''player_1_target_grid'' = Some (PyStr ''X'') \<and>
     g2 ''player_1_second_grid'' = Some (PyStr ''Y'') \<and>
     g3 ''player_1_third_grid'' = Some (PyStr ''Z'')"
proof -
  have three: "length (split_on CHR ''|''
     (p2_options \<lparr>p1_tag = ''Expression:'', p2_tag = ''Answer:'',
                  p2_options = ''first|second|third''\<rparr>)) = 3"
    by simp
  from player_1_fields_unchanged
    [of english "''en''" _ "''TARGET_GRID''" "''FIRST_GRID''" "''X''" "''Y''" "''Z''" 0 "[]",
      OF english_en three]
  obtain g1 g2 g3 where
    w: "slot_loop english ''en'' ''TARGET_GRID'' ''FIRST_GRID'' (''X'', ''Y'', ''Z'') [1, 2, 3] 0 [] =
       Inr ([] @ [g1, g2, g3], 0 + 3)"
    "g2 ''player_1_target_grid'' = Some (PyStr ''X'')"
    "g2 ''player_1_second_grid'' = Some (PyStr ''Y'')"
    "g3 ''player_1_third_grid'' = Some (PyStr ''Z'')"
    by (elim exE conjE)
  from w(1) have all: "slot_loop english ''en'' ''TARGET_GRID'' ''FIRST_GRID''
      (''X'', ''Y'', ''Z'') [1, 2, 3] 0 [] = Inr ([g1, g2, g3], 3)"
    by simp
  show ?thesis
    by (rule exI [of _ g1], rule exI [of _ g2], rule exI [of _ g3], intro conjI)
      (fact all w)+
qed

text \<open>
  C5, as amended. With the language in the table, one pass of the loop fails with an
  assertion error when \<open>p2_options\<close> does not split at \<open>|\<close> into exactly three pieces,
  and produces its instance when it does; the pieces may be empty.
\<close>

theorem three_options_assertion:
  assumes "patterns lang = Some entry"
  shows "(length (split_on CHR ''|'' (p2_options entry)) \<noteq> 3 \<longrightarrow>
            on_generate_instance patterns lang header_a header_b sample i game_counter =
              Inl AssertionError) \<and>
         (length (split_on CHR ''|'' (p2_options entry)) = 3 \<longrightarrow>
            (\<exists>g. on_generate_instance patterns lang header_a header_b sample i game_counter =
               Inr g))"
proof (intro conjI impI)
  assume "length (split_on CHR ''|'' (p2_options entry)) \<noteq> 3"
  with assms show "on_generate_instance patterns lang header_a header_b sample i game_counter =
      Inl AssertionError"
    by (rule on_generate_instance_assertion)
next
  assume three: "length (split_on CHR ''|'' (p2_options entry)) = 3"
  obtain target second third where s: "sample = (target, second, third)"
    by (cases sample) auto
  from on_generate_instance_Inr
    [of patterns lang entry header_a header_b target second third i game_counter, OF assms three]
  show "\<exists>g. on_generate_instance patterns lang header_a header_b sample i game_counter = Inr g"
    unfolding s by blast
qed

theorem three_options_assertion_witness:
  "on_generate_instance two_options ''en'' ''TARGET_GRID'' ''FIRST_GRID'' (''X'', ''Y'', ''Z'') 1 0 =
     Inl AssertionError \<and>
   (\<exists>g. on_generate_instance english ''en'' ''TARGET_GRID'' ''FIRST_GRID'' (''X'', ''Y'', ''Z'') 1 0 =
     Inr g)"
proof -
  have two: "two_options ''en'' =
      Some \<lparr>p1_tag = ''Expression:'', p2_tag = ''Answer:'', p2_options = ''first|second''\<rparr>"
    by (simp add: two_options_def)
  have "on_generate_instance two_options ''en'' ''TARGET_GRID'' ''FIRST_GRID''
      (''X'', ''Y'', ''Z'') 1 0 = Inl AssertionError"
    using three_options_assertion
      [of two_options "''en''" _ "''TARGET_GRID''" "''FIRST_GRID''" "(''X'', ''Y'', ''Z'')" 1 0,
        OF two]
    by simp
  moreover have "\<exists>g. on_generate_instance english ''en'' ''TARGET_GRID'' ''FIRST_GRID''
      (''X'', ''Y'', ''Z'') 1 0 = Inr g"
    using three_options_assertion
      [of english "''en''" _ "''TARGET_GRID''" "''FIRST_GRID''" "(''X'', ''Y'', ''Z'')" 1 0,
        OF english_en]
    by simp
  ultimately show ?thesis by blast
qed

theorem three_options_assertion_counterexample:
  "split_on CHR ''|'' ''first||third'' = [''first'', [], ''third''] \<and>
   \<not> isl (on_generate_instance empty_option ''en'' ''TARGET_GRID'' ''FIRST_GRID''
            (''X'', ''Y'', ''Z'') 2 0) \<and>
   projr (on_generate_instance empty_option ''en'' ''TARGET_GRID'' ''FIRST_GRID''
            (''X'', ''Y'', ''Z'') 2 0) ''target_grid_name'' = Some (PyStr [])"
  by (simp add: on_generate_instance_def empty_option_def generate_regex_def assign_slots_def
      Let_def)


section \<open>The response pattern of player 2\<close>

text \<open>
  C8, as amended. Take a language of the table whose \<open>p2_options\<close> splits into three
  names, whose tag and names contain no character that is special in a pattern, and whose
  names are not empty and do not begin with white space. Then the player-2 pattern matches
  the tag followed by any of the three names, and the group \<open>content\<close> holds the first
  of the three names that begins the answered name: the answered name itself unless
  another name is a prefix of it. And the pattern does not match the tag followed by a
  text that, after its leading white space, begins with none of the three names.
  Matching is \<^verbatim>\<open>re.match\<close> without flags.
\<close>

theorem p2_pattern_matches:
  assumes "patterns lang = Some entry"
    and "split_on CHR ''|'' (p2_options entry) = [name0, name1, name2]"
    and "\<forall>c\<in>set (p2_tag entry). \<not> special c"
    and "\<forall>name\<in>set [name0, name1, name2].
           name \<noteq> [] \<and> \<not> is_space (hd name) \<and> (\<forall>c\<in>set name. \<not> special c)"
  shows "\<exists>pattern. generate_regex patterns lang ''p2'' = Inr (Some pattern) \<and>
     (\<forall>name\<in>set [name0, name1, name2]. \<exists>caps first.
        re_match pattern (p2_tag entry @ name) = Inr (Some caps) \<and>
        caps ''content'' = Some first \<and>
        find (\<lambda>n. prefix n name) [name0, name1, name2] = Some first \<and>
        ((\<forall>n\<in>set [name0, name1, name2]. prefix n name \<longrightarrow> n = name) \<longrightarrow> first = name)) \<and>
     (\<forall>token. (\<forall>name\<in>set [name0, name1, name2]. \<not> prefix name (dropWhile is_space token)) \<longrightarrow>
        re_match pattern (p2_tag entry @ token) = Inr None)"
proof (rule exI [of _ "p2_pattern entry"], intro conjI ballI allI impI)
  show "generate_regex patterns lang ''p2'' = Inr (Some (p2_pattern entry))"
    using assms(1) by (rule generate_regex_p2_pattern)
next
  fix name assume name: "name \<in> set [name0, name1, name2]"
  then have "find (\<lambda>n. prefix n name) [name0, name1, name2] \<noteq> None"
    unfolding find_None_iff by blast
  then obtain first where first: "find (\<lambda>n. prefix n name) [name0, name1, name2] = Some first"
    by blast
  then have mem: "first \<in> set [name0, name1, name2]" "prefix first name"
    unfolding find_Some_iff by (metis nth_mem, blast)
  from assms(4) name have "name \<noteq> []" "\<not> is_space (hd name)" by auto
  then have "dropWhile is_space name = name" by (cases name) simp_all
  with first have "find (\<lambda>n. prefix n (dropWhile is_space name)) [name0, name1, name2] =
      Some first"
    by simp
  from p2_match_first [OF assms(2-4) this] obtain caps where
    "re_match (p2_pattern entry) (p2_tag entry @ name) = Inr (Some caps)"
    "caps ''content'' = Some first"
    by blast
  with first mem show "\<exists>caps first.
      re_match (p2_pattern entry) (p2_tag entry @ name) = Inr (Some caps) \<and>
      caps ''content'' = Some first \<and>
      find (\<lambda>n. prefix n name) [name0, name1, name2] = Some first \<and>
      ((\<forall>n\<in>set [name0, name1, name2]. prefix n name \<longrightarrow> n = name) \<longrightarrow> first = name)"
    by blast
next
  fix token
  assume "\<forall>name\<in>set [name0, name1, name2]. \<not> prefix name (dropWhile is_space token)"
  then have "find (\<lambda>n. prefix n (dropWhile is_space token)) [name0, name1, name2] = None"
    by (simp add: find_None_iff)
  with assms(2-4) show "re_match (p2_pattern entry) (p2_tag entry @ token) = Inr None"
    by (rule p2_match_none)
qed

theorem p2_pattern_matches_witness:
  "\<exists>pattern. generate_regex english ''en'' ''p2'' = Inr (Some pattern) \<and>
     (\<exists>caps. re_match pattern ''Answer:second'' = Inr (Some caps) \<and>
        caps ''content'' = Some ''second'') \<and>
     re_match pattern ''Answer: fourth'' = Inr None"
proof -
  let ?entry = "\<lparr>p1_tag = ''Expression:'', p2_tag = ''Answer:'',
    p2_options = ''first|second|third''\<rparr>"
  have e: "english ''en'' = Some ?entry" by (simp add: english_def)
  have s: "split_on CHR ''|'' (p2_options ?entry) = [''first'', ''second'', ''third'']" by simp
  have t: "\<forall>c\<in>set (p2_tag ?entry). \<not> special c" using plain_examples(1) by simp
  note p2_pattern_matches [of english "''en''" ?entry "''first''" "''second''" "''third''",
      OF e s t plain_examples(2)]
  then obtain pattern where g: "generate_regex english ''en'' ''p2'' = Inr (Some pattern)"
    and a: "\<forall>name\<in>set [''first'', ''second'', ''third'']. \<exists>caps first.
        re_match pattern (p2_tag ?entry @ name) = Inr (Some caps) \<and>
        caps ''content'' = Some first \<and>
        find (\<lambda>n. prefix n name) [''first'', ''second'', ''third''] = Some first \<and>
        ((\<forall>n\<in>set [''first'', ''second'', ''third'']. prefix n name \<longrightarrow> n = name) \<longrightarrow>
           first = name)"
    and b: "\<forall>token. (\<forall>name\<in>set [''first'', ''second'', ''third''].
          \<not> prefix name (dropWhile is_space token)) \<longrightarrow>
        re_match pattern (p2_tag ?entry @ token) = Inr None"
    by (elim exE conjE)
  from a have "\<exists>caps first.
        re_match pattern (p2_tag ?entry @ ''second'') = Inr (Some caps) \<and>
        caps ''content'' = Some first \<and>
        find (\<lambda>n. prefix n ''second'') [''first'', ''second'', ''third''] = Some first \<and>
        ((\<forall>n\<in>set [''first'', ''second'', ''third'']. prefix n ''second'' \<longrightarrow> n = ''second'') \<longrightarrow>
           first = ''second'')"
    by simp
  then obtain caps first where "re_match pattern (p2_tag ?entry @ ''second'') = Inr (Some caps)"
    "caps ''content'' = Some first"
    "find (\<lambda>n. prefix n ''second'') [''first'', ''second'', ''third''] = Some first"
    by (elim exE conjE)
  then have m: "\<exists>caps. re_match pattern ''Answer:second'' = Inr (Some caps) \<and>
        caps ''content'' = Some ''second''"
    by auto
  have "\<forall>name\<in>set [''first'', ''second'', ''third''].
      \<not> prefix name (dropWhile is_space '' fourth'')"
    by (simp add: is_space_def)
  with b have "re_match pattern (p2_tag ?entry @ '' fourth'') = Inr None" by blast
  then have n: "re_match pattern ''Answer: fourth'' = Inr None" by simp
  from g m n show ?thesis by blast
qed

theorem p2_pattern_matches_counterexample:
  "generate_regex bracket_tag ''en'' ''p2'' =
     Inr (Some (''^Answer (slot):'' @ CHR 0x5C # ''s*(?P<content>first|second|third)''
                @ CHR 0x0A # ''*(?P<remainder>.*)'')) \<and>
   re_match (''^Answer (slot):'' @ CHR 0x5C # ''s*(?P<content>first|second|third)''
             @ CHR 0x0A # ''*(?P<remainder>.*)'') ''Answer (slot):first'' = Inr None \<and>
   generate_regex nested_names ''en'' ''p2'' =
     Inr (Some (''^Answer:'' @ CHR 0x5C # ''s*(?P<content>a|ab|c)''
                @ CHR 0x0A # ''*(?P<remainder>.*)'')) \<and>
   re_match (''^Answer:'' @ CHR 0x5C # ''s*(?P<content>a|ab|c)''
             @ CHR 0x0A # ''*(?P<remainder>.*)'') ''Answer:ab'' \<noteq> Inr None \<and>
   the (projr (re_match (''^Answer:'' @ CHR 0x5C # ''s*(?P<content>a|ab|c)''
             @ CHR 0x0A # ''*(?P<remainder>.*)'') ''Answer:ab'')) ''content'' = Some ''a''"
proof -
  let ?p = "''^Answer (slot):'' @ CHR 0x5C # ''s*(?P<content>first|second|third)''
                @ CHR 0x0A # ''*(?P<remainder>.*)''"
  have g1: "generate_regex bracket_tag ''en'' ''p2'' = Inr (Some ?p)"
    by (simp add: generate_regex_def bracket_tag_def)
  have "\<exists>r. parse ?p = Some r \<and> matches ''Answer (slot):first'' r (''Answer (slot):first'', Map.empty) = []"
    by (simp add: parse_def normal_step_def new_frame_def add_item_def quantify_def
        frame_regex_def is_ident_char_def is_digit_def special_def)
  then have m1: "re_match ?p ''Answer (slot):first'' = Inr None"
    by (auto simp: re_match_def)
  let ?entry = "\<lparr>p1_tag = ''Expression:'', p2_tag = ''Answer:'', p2_options = ''a|ab|c''\<rparr>"
  let ?q = "''^Answer:'' @ CHR 0x5C # ''s*(?P<content>a|ab|c)''
                @ CHR 0x0A # ''*(?P<remainder>.*)''"
  have q: "p2_pattern ?entry = ?q" by (simp add: p2_pattern_def)
  have g2: "generate_regex nested_names ''en'' ''p2'' = Inr (Some ?q)"
    by (simp add: generate_regex_def nested_names_def)
  have s: "split_on CHR ''|'' (p2_options ?entry) = [''a'', ''ab'', ''c'']" by simp
  have t: "\<forall>c\<in>set (p2_tag ?entry). \<not> special c" using plain_examples(1) by simp
  have f: "find (\<lambda>n. prefix n (dropWhile is_space ''ab'')) [''a'', ''ab'', ''c''] = Some ''a''"
    by (simp add: is_space_def)
  from p2_match_first [OF s t plain_examples(3) f] obtain caps where
    "re_match ?q ''Answer:ab'' = Inr (Some caps)" "caps ''content'' = Some ''a''"
    unfolding q by auto
  then have m2: "re_match ?q ''Answer:ab'' \<noteq> Inr None"
    "the (projr (re_match ?q ''Answer:ab'')) ''content'' = Some ''a''"
    by simp_all
  from g1 m1 g2 m2 show ?thesis by blast
qed

end
